theory Spec2Isabelle
  imports Main "HOL-Library.Sublist"
begin

section \<open>Python strings\<close>

text \<open>
  A Python \<open>str\<close> is a sequence of Unicode code points, so a character is modelled by its
  code point and a string by the list of its code points: \<open>len\<close> is \<open>length\<close>, the marker
  glyph U+25C6 is one character. ASCII literals of the source are written with \<open>str\<close>.
\<close>

type_synonym pychar = nat
type_synonym pystr = "pychar list"

definition str :: "string \<Rightarrow> pystr" where
  "str s = map of_char s"

datatype py_error = ValueError | IndexError

text \<open>\<open>str.isspace\<close> of one character: the code points CPython lists as whitespace.\<close>

definition isspace :: "pychar \<Rightarrow> bool" where
  "isspace c =
     ((9 \<le> c \<and> c \<le> 13) \<or> (28 \<le> c \<and> c \<le> 32) \<or> c = 133 \<or> c = 160 \<or> c = 5760
      \<or> (8192 \<le> c \<and> c \<le> 8202) \<or> c = 8232 \<or> c = 8233 \<or> c = 8239 \<or> c = 8287
      \<or> c = 12288)"

text \<open>\<open>s.strip()\<close>, \<open>s.lstrip(chars)\<close>, \<open>s.startswith(p)\<close>; \<open>sub in s\<close> is \<open>sublist sub s\<close>.\<close>

definition py_strip :: "pystr \<Rightarrow> pystr" where
  "py_strip s = rev (dropWhile isspace (rev (dropWhile isspace s)))"

definition py_lstrip :: "pystr \<Rightarrow> pystr \<Rightarrow> pystr" where
  "py_lstrip chars s = dropWhile (\<lambda>c. c \<in> set chars) s"

definition py_startswith :: "pystr \<Rightarrow> pystr \<Rightarrow> bool" where
  "py_startswith s p = prefix p s"

text \<open>\<open>s.find(sub)\<close>: the index of the first occurrence, \<open>None\<close> for Python's \<open>-1\<close>.\<close>

fun py_find :: "pystr \<Rightarrow> pystr \<Rightarrow> nat option" where
  "py_find sub [] = (if sub = [] then Some 0 else None)"
| "py_find sub (c # cs) =
     (if prefix sub (c # cs) then Some 0 else map_option Suc (py_find sub cs))"

lemma py_find_bound: "py_find sub s = Some i \<Longrightarrow> i + length sub \<le> length s"
proof (induction s arbitrary: i)
  case Nil
  then show ?case by (simp split: if_splits)
next
  case (Cons c cs)
  show ?case
  proof (cases "prefix sub (c # cs)")
    case True
    then have "length sub \<le> length (c # cs)" by (rule prefix_length_le)
    with True Cons.prems show ?thesis by simp
  next
    case False
    with Cons.prems obtain j where "py_find sub cs = Some j" "i = Suc j" by auto
    with Cons.IH show ?thesis by fastforce
  qed
qed

text \<open>
  \<open>s.split(sep, maxsplit)\<close> for a non-empty separator: CPython looks for the next
  occurrence from the current position, cuts there and goes on after the separator,
  at most \<open>maxsplit\<close> times; a negative \<open>maxsplit\<close> (the default \<open>-1\<close>) never reaches 0.
  An empty separator raises \<open>ValueError\<close>.
\<close>

function split_pieces :: "pystr \<Rightarrow> int \<Rightarrow> pystr \<Rightarrow> pystr list" where
  "split_pieces sep maxsplit s =
     (if maxsplit = 0 \<or> sep = [] then [s]
      else (case py_find sep s of
              None \<Rightarrow> [s]
            | Some i \<Rightarrow> take i s # split_pieces sep (maxsplit - 1) (drop (i + length sep) s)))"
  by pat_completeness auto
termination
proof (relation "measure (\<lambda>(sep, maxsplit, s). length s)")
  show "wf (measure (\<lambda>(sep, maxsplit, s). length s))" by simp
next
  fix sep :: pystr and maxsplit :: int and s :: pystr and i :: nat
  assume "\<not> (maxsplit = 0 \<or> sep = [])" and "py_find sep s = Some i"
  then have "0 < length sep" and "i + length sep \<le> length s"
    using py_find_bound by auto
  then have "length s - (i + length sep) < length s"
    by linarith
  then have "length (drop (i + length sep) s) < length s"
    by simp
  then show "((sep, maxsplit - 1, drop (i + length sep) s), (sep, maxsplit, s))
        \<in> measure (\<lambda>(sep, maxsplit, s). length s)"
    by simp
qed

declare split_pieces.simps [simp del]

definition py_split :: "pystr \<Rightarrow> int \<Rightarrow> pystr \<Rightarrow> py_error + pystr list" where
  "py_split sep maxsplit s =
     (if sep = [] then Inl ValueError else Inr (split_pieces sep maxsplit s))"

text \<open>\<open>xs[i]\<close>: a negative index counts from the end, an index out of range raises.\<close>

definition py_index :: "'a list \<Rightarrow> int \<Rightarrow> py_error + 'a" where
  "py_index xs i =
     (if 0 \<le> i \<and> i < int (length xs) then Inr (xs ! nat i)
      else if i < 0 \<and> - int (length xs) \<le> i then Inr (xs ! nat (int (length xs) + i))
      else Inl IndexError)"

text \<open>\<open>s.split(sep, maxsplit)[i]\<close>, as the source writes it in one expression.\<close>

definition split_item :: "pystr \<Rightarrow> int \<Rightarrow> int \<Rightarrow> pystr \<Rightarrow> py_error + pystr" where
  "split_item sep maxsplit i s =
     (case py_split sep maxsplit s of Inl e \<Rightarrow> Inl e | Inr ps \<Rightarrow> py_index ps i)"

section \<open>ANSI escape codes\<close>

text \<open>
  \<^verbatim>\<open>ansi_escape = re.compile(r'\x1B\[[0-?]*[ -/]*[@-~]')\<close>
  The three character classes are the ranges 0x30..0x3F, 0x20..0x2F and 0x40..0x7E.
  They are pairwise disjoint, so the greedy match of each starred class is the only
  one that can be continued: giving a character of a class back leaves a character
  that neither the next class nor the final class accepts. \<open>ansi_match\<close> is the match
  of the pattern at the start of a string; it returns the text after the match.
\<close>

definition is_parameter :: "pychar \<Rightarrow> bool" where
  "is_parameter c = (48 \<le> c \<and> c \<le> 63)"

definition is_intermediate :: "pychar \<Rightarrow> bool" where
  "is_intermediate c = (32 \<le> c \<and> c \<le> 47)"

definition is_final :: "pychar \<Rightarrow> bool" where
  "is_final c = (64 \<le> c \<and> c \<le> 126)"

fun ansi_match :: "pystr \<Rightarrow> pystr option" where
  "ansi_match (e # b # rest) =
     (if e = 27 \<and> b = 91
      then (case dropWhile is_intermediate (dropWhile is_parameter rest) of
              [] \<Rightarrow> None
            | f # rest' \<Rightarrow> if is_final f then Some rest' else None)
      else None)"
| "ansi_match _ = None"

lemma ansi_match_shorter: "ansi_match s = Some rest \<Longrightarrow> length rest < length s"
proof (cases s rule: ansi_match.cases)
  case (1 e b r)
  assume m: "ansi_match s = Some rest"
  have le: "length (dropWhile is_intermediate (dropWhile is_parameter r)) \<le> length r"
    by (meson length_dropWhile_le le_trans)
  from m 1 obtain f where "dropWhile is_intermediate (dropWhile is_parameter r) = f # rest"
    by (auto split: if_splits list.splits)
  with le have "length rest < length r" by simp
  with 1 show ?thesis by simp
qed simp_all

text \<open>
  \<open>ansi_escape.sub('', text)\<close>: scan from the left; where the pattern matches, drop the
  match and go on after it, otherwise keep the character and move one position.
\<close>

function strip_ansi_escape_codes :: "pystr \<Rightarrow> pystr" where
  "strip_ansi_escape_codes [] = []"
| "strip_ansi_escape_codes (c # cs) =
     (case ansi_match (c # cs) of
        Some rest \<Rightarrow> strip_ansi_escape_codes rest
      | None \<Rightarrow> c # strip_ansi_escape_codes cs)"
  by pat_completeness auto
termination
  by (relation "measure length") (auto dest: ansi_match_shorter)

text \<open>
  What a CSI sequence is (ECMA-48): ESC, \<open>[\<close>, parameter bytes, intermediate bytes and one
  final byte. \<open>contains_csi\<close> says that one occurs somewhere in a string.
\<close>

definition is_csi :: "pystr \<Rightarrow> bool" where
  "is_csi s =
     (3 \<le> length s \<and> take 2 s = [27, 91] \<and> is_final (last s) \<and>
      list_all is_intermediate (dropWhile is_parameter (butlast (drop 2 s))))"

definition contains_csi :: "pystr \<Rightarrow> bool" where
  "contains_csi s = list_ex is_csi (sublists s)"

subsection \<open>Properties of the scan\<close>

lemma classes_disjoint:
  "is_parameter c \<Longrightarrow> \<not> is_intermediate c" "is_parameter c \<Longrightarrow> \<not> is_final c"
  "is_intermediate c \<Longrightarrow> \<not> is_final c" "\<not> is_parameter 27" "\<not> is_intermediate 27" "\<not> is_final 27"
  by (auto simp: is_parameter_def is_intermediate_def is_final_def)

lemma is_csi_decomp:
  assumes "is_csi s"
  obtains ps ims f where "s = 27 # 91 # ps @ ims @ [f]" "list_all is_parameter ps"
    "list_all is_intermediate ims" "is_final f"
proof -
  from assms obtain r where s: "s = 27 # 91 # r" and r: "r \<noteq> []"
    by (cases s; cases "tl s"; cases "tl (tl s)") (auto simp: is_csi_def)
  let ?b = "butlast r"
  have "s = 27 # 91 # takeWhile is_parameter ?b @ dropWhile is_parameter ?b @ [last r]"
    by (metis s r append_butlast_last_id takeWhile_dropWhile_id append_assoc)
  moreover have "list_all is_parameter (takeWhile is_parameter ?b)"
    by (simp add: list_all_iff) (meson set_takeWhileD)
  moreover have "list_all is_intermediate (dropWhile is_parameter ?b)"
    using assms s r by (simp add: is_csi_def)
  moreover have "is_final (last r)"
    using assms s r by (simp add: is_csi_def)
  ultimately show ?thesis using that by blast
qed

lemma dropWhile_classes:
  assumes "list_all is_parameter ps" "list_all is_intermediate ims" "\<not> is_parameter f" "\<not> is_intermediate f"
  shows "dropWhile is_intermediate (dropWhile is_parameter (ps @ ims @ f # ys)) = f # ys"
proof -
  have "dropWhile is_parameter (ps @ ims @ f # ys) = dropWhile is_parameter (ims @ f # ys)"
    using assms(1) by (simp add: list_all_iff)
  also have "\<dots> = ims @ f # ys"
    using assms(2,3) by (cases ims) (auto simp: classes_disjoint)
  finally show ?thesis using assms(2,4) by (simp add: list_all_iff)
qed

lemma ansi_match_csi: "is_csi s \<Longrightarrow> ansi_match (s @ ys) = Some ys"
proof -
  assume "is_csi s"
  then obtain ps ims f where s: "s = 27 # 91 # ps @ ims @ [f]" and c: "list_all is_parameter ps"
    "list_all is_intermediate ims" "is_final f" by (rule is_csi_decomp)
  from c(3) have "\<not> is_parameter f" "\<not> is_intermediate f" using classes_disjoint by blast+
  with c have "dropWhile is_intermediate (dropWhile is_parameter (ps @ ims @ f # ys)) = f # ys"
    by (intro dropWhile_classes)
  with s c(3) show ?thesis by simp
qed

lemma dropWhile_append_ne: "dropWhile P xs \<noteq> [] \<Longrightarrow> dropWhile P (xs @ ys) = dropWhile P xs @ ys"
  by (induction xs) auto

lemma dropWhile_append_nil: "dropWhile P xs = [] \<Longrightarrow> dropWhile P (xs @ ys) = dropWhile P ys"
  by (induction xs) (auto split: if_splits)

lemma ansi_match_append: "ansi_match s = Some rest \<Longrightarrow> ansi_match (s @ t) = Some (rest @ t)"
proof (cases s rule: ansi_match.cases)
  case (1 e b r)
  assume m: "ansi_match s = Some rest"
  with 1 obtain f where d: "dropWhile is_intermediate (dropWhile is_parameter r) = f # rest"
    and f: "is_final f" and eb: "e = 27" "b = 91"
    by (auto split: if_splits list.splits)
  have "dropWhile is_parameter r \<noteq> []"
  proof
    assume "dropWhile is_parameter r = []"
    then have "dropWhile is_intermediate (dropWhile is_parameter r) = []" by (simp only: dropWhile.simps)
    with d show False by simp
  qed
  then have "dropWhile is_parameter (r @ t) = dropWhile is_parameter r @ t"
    by (rule dropWhile_append_ne)
  moreover have "dropWhile is_intermediate (dropWhile is_parameter r @ t) = (f # rest) @ t"
    using d by (simp add: dropWhile_append_ne)
  ultimately show ?thesis using 1 f eb by simp
qed simp_all

lemma ansi_match_none_append:
  assumes "ansi_match (c # cs) = None"
  shows "ansi_match ((c # cs) @ 27 # q) = None"
proof (cases cs)
  case Nil
  then show ?thesis by simp
next
  case (Cons b r)
  show ?thesis
  proof (cases "c = 27 \<and> b = 91")
    case False
    with Cons show ?thesis by auto
  next
    case True
    define d where "d = dropWhile is_parameter r"
    define d2 where "d2 = dropWhile is_intermediate d"
    have t: "dropWhile is_intermediate (27 # q) = 27 # q" "dropWhile is_parameter (27 # q) = 27 # q"
      by (simp_all add: classes_disjoint)
    have "dropWhile is_parameter (r @ 27 # q) = d @ 27 # q"
      using t(2) dropWhile_append_nil [of is_parameter r] dropWhile_append_ne [of is_parameter r]
      unfolding d_def by (cases "dropWhile is_parameter r = []") auto
    moreover have "dropWhile is_intermediate (d @ 27 # q) = d2 @ 27 # q"
      using t(1) dropWhile_append_nil [of is_intermediate d] dropWhile_append_ne [of is_intermediate d]
      unfolding d2_def by (cases "dropWhile is_intermediate d = []") auto
    ultimately have app: "ansi_match ((c # cs) @ 27 # q) =
        (case d2 @ 27 # q of
           [] \<Rightarrow> None | f # rest' \<Rightarrow> if is_final f then Some rest' else None)"
      using Cons True by simp
    from assms Cons True have
      "(case d2 of [] \<Rightarrow> None | f # rest' \<Rightarrow> if is_final f then Some rest' else None) = None"
      unfolding d2_def d_def by simp
    then show ?thesis
      unfolding app by (cases d2) (simp_all add: classes_disjoint split: if_splits)
  qed
qed

lemma strip_csi_removed:
  "is_csi q \<Longrightarrow> strip_ansi_escape_codes (xs @ q @ ys) = strip_ansi_escape_codes xs @ strip_ansi_escape_codes ys"
proof (induction xs rule: strip_ansi_escape_codes.induct)
  case 1
  from \<open>is_csi q\<close> have m: "ansi_match (q @ ys) = Some ys" by (rule ansi_match_csi)
  then obtain c cs where "q @ ys = c # cs" by (cases "q @ ys") auto
  with m show ?case by simp
next
  case (2 c cs)
  from \<open>is_csi q\<close> obtain q' where q: "q = 27 # q'" by (cases q) (auto simp: is_csi_def)
  show ?case
  proof (cases "ansi_match (c # cs)")
    case None
    then have "ansi_match ((c # cs) @ 27 # q' @ ys) = None" by (rule ansi_match_none_append)
    with None 2 q show ?thesis by simp
  next
    case (Some rest)
    then have "ansi_match ((c # cs) @ q @ ys) = Some (rest @ q @ ys)" by (rule ansi_match_append)
    with Some 2 show ?thesis by simp
  qed
qed

lemma dropWhile_takeWhile_same: "dropWhile P (takeWhile P xs @ ys) = dropWhile P ys"
  by (induction xs) auto

lemma dropWhile_takeWhile_dropWhile:
  "dropWhile P (takeWhile Q (dropWhile P xs)) = takeWhile Q (dropWhile P xs)"
  by (induction xs) auto

lemma ansi_match_Some_csi:
  assumes "ansi_match s = Some rest"
  shows "\<exists>q. is_csi q \<and> s = q @ rest"
proof (cases s rule: ansi_match.cases)
  case (1 e b r)
  let ?d = "dropWhile is_parameter r"
  from assms 1 obtain f where d: "dropWhile is_intermediate ?d = f # rest"
    and f: "is_final f" and eb: "e = 27" "b = 91"
    by (auto split: if_splits list.splits)
  let ?ps = "takeWhile is_parameter r" and ?ims = "takeWhile is_intermediate ?d"
  let ?q = "27 # 91 # ?ps @ ?ims @ [f]"
  have r: "r = ?ps @ ?ims @ f # rest"
    by (metis d takeWhile_dropWhile_id)
  have "dropWhile is_parameter (?ps @ ?ims) = ?ims"
    by (simp only: dropWhile_takeWhile_same dropWhile_takeWhile_dropWhile)
  then have "list_all is_intermediate (dropWhile is_parameter (?ps @ ?ims))"
    by (simp add: list_all_iff) (meson set_takeWhileD)
  then have "is_csi ?q" using f by (simp add: is_csi_def butlast_append)
  moreover have "s = ?q @ rest" using 1 eb r by simp
  ultimately show ?thesis by blast
qed (use assms in simp_all)

lemma strip_csi_free:
  "(\<forall>q. is_csi q \<longrightarrow> \<not> sublist q xs) \<Longrightarrow> strip_ansi_escape_codes xs = xs"
proof (induction xs rule: strip_ansi_escape_codes.induct)
  case 1
  show ?case by simp
next
  case (2 c cs)
  have "ansi_match (c # cs) = None"
  proof (rule ccontr)
    assume "ansi_match (c # cs) \<noteq> None"
    then obtain rest where "ansi_match (c # cs) = Some rest" by auto
    then obtain q where "is_csi q" "c # cs = q @ rest" using ansi_match_Some_csi by blast
    then have "is_csi q" "sublist q (c # cs)" by (auto simp: sublist_def intro: exI[of _ "[]"])
    with "2.prems" show False by blast
  qed
  moreover have "\<forall>q. is_csi q \<longrightarrow> \<not> sublist q cs"
    using "2.prems" by (auto simp: sublist_Cons_right)
  ultimately show ?case using "2.IH" by simp
qed

lemma contains_csi_iff: "contains_csi s \<longleftrightarrow> (\<exists>q. is_csi q \<and> sublist q s)"
  by (auto simp: contains_csi_def list_ex_iff)

text \<open>
  Claim C4. \<open>strip_ansi_escape_codes\<close> removes every CSI sequence of its input and keeps
  every other character: a CSI sequence \<open>q\<close> standing anywhere in the text, between any
  \<open>xs\<close> and \<open>ys\<close>, is dropped and the two sides are processed on their own; a text in
  which no CSI sequence occurs is returned as it is; and the text ESC \<open>[31m\<close> \<open>Red\<close>
  ESC \<open>[0m\<close> gives \<open>Red\<close>.
\<close>

theorem strip_ansi_escape_codes_removes_csi:
  "(is_csi q \<longrightarrow>
      strip_ansi_escape_codes (xs @ q @ ys) =
        strip_ansi_escape_codes xs @ strip_ansi_escape_codes ys)
   \<and> (\<not> contains_csi xs \<longrightarrow> strip_ansi_escape_codes xs = xs)
   \<and> strip_ansi_escape_codes ([27, 91, 51, 49, 109] @ str ''Red'' @ [27, 91, 48, 109]) = str ''Red''"
proof (intro conjI impI)
  assume "is_csi q"
  then show "strip_ansi_escape_codes (xs @ q @ ys) =
      strip_ansi_escape_codes xs @ strip_ansi_escape_codes ys"
    by (rule strip_csi_removed)
next
  assume "\<not> contains_csi xs"
  then have "\<forall>q. is_csi q \<longrightarrow> \<not> sublist q xs" by (simp add: contains_csi_iff)
  then show "strip_ansi_escape_codes xs = xs" by (rule strip_csi_free)
next
  show "strip_ansi_escape_codes ([27, 91, 51, 49, 109] @ str ''Red'' @ [27, 91, 48, 109]) = str ''Red''"
    by (simp add: str_def is_parameter_def is_intermediate_def is_final_def)
qed

theorem strip_ansi_escape_codes_removes_csi_witness:
  "is_csi [27, 91, 49, 59, 51, 50, 109]
   \<and> strip_ansi_escape_codes (str ''ok '' @ [27, 91, 49, 59, 51, 50, 109] @ str ''done'') = str ''ok done''
   \<and> \<not> contains_csi (str ''Red'')
   \<and> strip_ansi_escape_codes (str ''Red'') = str ''Red''"
proof -
  have q: "is_csi [27, 91, 49, 59, 51, 50, 109]"
    by (simp add: is_csi_def is_parameter_def is_intermediate_def is_final_def)
  have f: "\<not> contains_csi (str ''Red'')"
    by (simp add: contains_csi_def str_def is_csi_def)
  have e: "strip_ansi_escape_codes (str ''ok '') = str ''ok ''"
      "strip_ansi_escape_codes (str ''done'') = str ''done''"
    by (simp_all add: str_def)
  from strip_ansi_escape_codes_removes_csi
    [of "[27, 91, 49, 59, 51, 50, 109]" "str ''ok ''" "str ''done''"] q e
  have "strip_ansi_escape_codes (str ''ok '' @ [27, 91, 49, 59, 51, 50, 109] @ str ''done'')
      = str ''ok done''"
    by (simp add: str_def)
  moreover from strip_ansi_escape_codes_removes_csi [of _ "str ''Red''"] f
  have "strip_ansi_escape_codes (str ''Red'') = str ''Red''" by blast
  ultimately show ?thesis using q f by blast
qed

section \<open>Line parser\<close>

text \<open>
  The marker glyph U+25C6 and the two delimiters. \<open>clean_name\<close> is the chain
  \<^verbatim>\<open>.strip().lstrip(marker).strip()\<close> that every branch of \<open>extract_app_name\<close> applies;
  \<open>lstrip\<close> with an argument removes every leading character that is in the argument.
  The two classes each have their own \<open>extract_app_name\<close> and \<open>extract_app_description\<close>.
\<close>

definition marker :: pystr where
  "marker = [9670]"

definition colon_sep :: pystr where
  "colon_sep = str '' : ''"

definition bar_sep :: pystr where
  "bar_sep = str ''|''"

definition clean_name :: "pystr \<Rightarrow> pystr" where
  "clean_name p = py_strip (py_lstrip marker (py_strip p))"

definition FileLoaderWorker_extract_app_name :: "pystr \<Rightarrow> py_error + pystr" where
  "FileLoaderWorker_extract_app_name app_line =
     map_sum id py_strip
       (if sublist colon_sep app_line
        then map_sum id clean_name (split_item colon_sep 1 0 app_line)
        else Inr (clean_name app_line))"

definition FileLoaderWorker_extract_app_description :: "pystr \<Rightarrow> py_error + pystr" where
  "FileLoaderWorker_extract_app_description app_line =
     (if sublist colon_sep app_line
      then map_sum id py_strip (split_item colon_sep 1 1 app_line)
      else Inr [])"

definition AppImageManagerGUI_extract_app_name :: "pystr \<Rightarrow> py_error + pystr" where
  "AppImageManagerGUI_extract_app_name app_line =
     (if sublist bar_sep app_line
      then map_sum id clean_name (split_item bar_sep (- 1) 0 app_line)
      else if sublist colon_sep app_line
      then map_sum id clean_name (split_item colon_sep 1 0 app_line)
      else Inr (clean_name app_line))"

definition AppImageManagerGUI_extract_app_description :: "pystr \<Rightarrow> py_error + pystr" where
  "AppImageManagerGUI_extract_app_description app_line =
     (if sublist colon_sep app_line
      then map_sum id py_strip (split_item colon_sep 1 1 app_line)
      else if sublist bar_sep app_line
      then map_sum id py_strip (split_item bar_sep 1 1 app_line)
      else Inr [])"


section \<open>List controller\<close>

text \<open>An entry of a list model: \<open>(app_name, description, is_app)\<close>.\<close>

type_synonym app_entry = "pystr \<times> pystr \<times> bool"

text \<open>
  \<open>s.splitlines()\<close>: a line ends at one of Python's line boundaries, \<open>\r\n\<close> counts as
  one, and no empty last line is produced. \<open>sep.join(xs)\<close>.
\<close>

definition is_linebreak :: "pychar \<Rightarrow> bool" where
  "is_linebreak c =
     ((10 \<le> c \<and> c \<le> 13) \<or> (28 \<le> c \<and> c \<le> 30) \<or> c = 133 \<or> c = 8232 \<or> c = 8233)"

fun splitlines_from :: "pystr \<Rightarrow> pystr \<Rightarrow> pystr list" where
  "splitlines_from cur [] = (if cur = [] then [] else [rev cur])"
| "splitlines_from cur (c # cs) =
     (if is_linebreak c
      then rev cur #
        (case cs of
           [] \<Rightarrow> []
         | d # ds \<Rightarrow> if c = 13 \<and> d = 10 then splitlines_from [] ds else splitlines_from [] cs)
      else splitlines_from (c # cur) cs)"

definition py_splitlines :: "pystr \<Rightarrow> pystr list" where
  "py_splitlines s = splitlines_from [] s"

fun py_join :: "pystr \<Rightarrow> pystr list \<Rightarrow> pystr" where
  "py_join sep [] = []"
| "py_join sep [x] = x"
| "py_join sep (x # y # ys) = x @ sep @ py_join sep (y # ys)"

text \<open>
  The callback of \<open>AppImageManagerGUI.refresh_installed_apps\<close>: the loop over the lines
  of the output, with its two \<open>continue\<close> branches, and the list \<open>apps\<close> it builds.
\<close>

fun refresh_installed_apps_loop :: "pystr list \<Rightarrow> app_entry list \<Rightarrow> py_error + app_entry list" where
  "refresh_installed_apps_loop [] apps = Inr apps"
| "refresh_installed_apps_loop (app_line # lines) apps =
     (if py_strip app_line = [] then refresh_installed_apps_loop lines apps
      else
        (let is_app_line = py_startswith (py_strip app_line) marker in
         if \<not> is_app_line then refresh_installed_apps_loop lines apps
         else
           (case AppImageManagerGUI_extract_app_name app_line of
              Inl e \<Rightarrow> Inl e
            | Inr app_name \<Rightarrow>
                (case AppImageManagerGUI_extract_app_description app_line of
                   Inl e \<Rightarrow> Inl e
                 | Inr description \<Rightarrow>
                     refresh_installed_apps_loop lines
                       (apps @ [(app_name, py_join (str '' '') (py_splitlines description),
                                 is_app_line)])))))"

definition refresh_installed_apps_callback :: "pystr \<Rightarrow> py_error + app_entry list" where
  "refresh_installed_apps_callback output =
     (if output \<noteq> []
      then (case py_split [10] (- 1) (py_strip output) of
              Inl e \<Rightarrow> Inl e
            | Inr lines \<Rightarrow> refresh_installed_apps_loop lines [])
      else Inr [])"

text \<open>
  \<open>FileLoaderWorker.run\<close>: the file is given by the lines its iteration yields, \<open>None\<close>
  when \<open>open\<close> raises. An exception leaves the loop; the handler prints it and the
  entries collected so far are emitted.
\<close>

fun FileLoaderWorker_run_loop :: "pystr list \<Rightarrow> app_entry list \<Rightarrow> app_entry list" where
  "FileLoaderWorker_run_loop [] apps = apps"
| "FileLoaderWorker_run_loop (raw # rest) apps =
     (let line = py_strip raw in
      if line = [] then FileLoaderWorker_run_loop rest apps
      else
        (case FileLoaderWorker_extract_app_name line of
           Inl e \<Rightarrow> apps
         | Inr app_name \<Rightarrow>
             (case FileLoaderWorker_extract_app_description line of
                Inl e \<Rightarrow> apps
              | Inr description \<Rightarrow>
                  FileLoaderWorker_run_loop rest (apps @ [(app_name, description, True)]))))"

definition FileLoaderWorker_run :: "pystr list option \<Rightarrow> app_entry list" where
  "FileLoaderWorker_run file =
     (case file of None \<Rightarrow> [] | Some lines \<Rightarrow> FileLoaderWorker_run_loop lines [])"

lemmas parser_eval = str_def marker_def colon_sep_def bar_sep_def clean_name_def
  FileLoaderWorker_extract_app_name_def FileLoaderWorker_extract_app_description_def
  AppImageManagerGUI_extract_app_name_def AppImageManagerGUI_extract_app_description_def
  split_item_def py_split_def py_index_def split_pieces.simps py_strip_def py_lstrip_def
  py_startswith_def isspace_def is_linebreak_def py_splitlines_def sublist_code

lemma prefix_overlap:
  assumes "prefix sep (l @ sep @ r)" "l \<noteq> []"
  shows "prefix sep (l @ butlast sep)"
proof (cases "sep = []")
  case True
  then show ?thesis by simp
next
  case False
  have "prefix (l @ butlast sep) (l @ sep @ r)"
    by (metis False append_butlast_last_id prefixI append_assoc same_prefix_prefix)
  moreover have "length sep \<le> length (l @ butlast sep)"
    using assms(2) False by (cases l) auto
  ultimately show ?thesis using assms(1) prefix_length_prefix by blast
qed

lemma py_find_first:
  assumes "sep \<noteq> []" "\<not> sublist sep (l @ butlast sep)"
  shows "py_find sep (l @ sep @ r) = Some (length l)"
  using assms(2)
proof (induction l)
  case Nil
  from assms(1) obtain c cs where "sep @ r = c # cs" by (cases sep) auto
  moreover have "prefix sep (sep @ r)" by simp
  ultimately show ?case by simp
next
  case (Cons x l)
  have "\<not> prefix sep ((x # l) @ sep @ r)"
    using prefix_overlap [of sep "x # l" r] Cons.prems by auto
  moreover have "\<not> sublist sep (l @ butlast sep)"
    using Cons.prems by (simp add: sublist_Cons_right)
  ultimately show ?case using Cons.IH by simp
qed

lemma py_find_None: "\<not> sublist sub s \<Longrightarrow> py_find sub s = None"
  by (induction s) (auto simp: sublist_Cons_right)

lemma split_pieces_first:
  assumes "sep \<noteq> []" "\<not> sublist sep (l @ butlast sep)" "maxsplit \<noteq> 0"
  shows "split_pieces sep maxsplit (l @ sep @ r) = l # split_pieces sep (maxsplit - 1) r"
  using assms py_find_first [OF assms(1,2), of r]
  by (subst split_pieces.simps) simp

lemma split_item_colon_0:
  assumes "sep \<noteq> []" "\<not> sublist sep (l @ butlast sep)" "maxsplit \<noteq> 0"
  shows "split_item sep maxsplit 0 (l @ sep @ r) = Inr l"
  using assms by (simp add: split_item_def py_split_def split_pieces_first py_index_def)

lemma split_item_1_1:
  assumes "sep \<noteq> []" "\<not> sublist sep (l @ butlast sep)"
  shows "split_item sep 1 1 (l @ sep @ r) = Inr r"
  using assms
  by (simp add: split_item_def py_split_def split_pieces_first py_index_def split_pieces.simps [of sep 0])

lemma dropWhile_snoc_keep: "\<not> P x \<Longrightarrow> \<exists>w. dropWhile P (ys @ [x]) = w @ [x]"
  by (induction ys) auto

lemma dropWhile_rev_dropWhile:
  "dropWhile P (rev (dropWhile P (rev (dropWhile P s)))) = rev (dropWhile P (rev (dropWhile P s)))"
proof (cases "dropWhile P s")
  case Nil
  show ?thesis by (simp add: Nil)
next
  case (Cons x u)
  have nx: "\<not> P x"
    using hd_dropWhile [of P s] Cons by simp
  have "\<exists>w. dropWhile P (rev u @ [x]) = w @ [x]"
    using nx by (rule dropWhile_snoc_keep)
  then obtain w where w: "dropWhile P (rev u @ [x]) = w @ [x]" ..
  have "rev (dropWhile P (rev (dropWhile P s))) = x # rev w"
    by (simp only: Cons rev.simps w rev_append append_Cons append_Nil)
  with nx show ?thesis by (simp only: dropWhile.simps if_False)
qed

lemma py_strip_idem: "py_strip (py_strip s) = py_strip s"
proof -
  define t where "t = py_strip s"
  have a: "dropWhile isspace t = t"
    unfolding t_def py_strip_def by (rule dropWhile_rev_dropWhile)
  have "rev t = dropWhile isspace (rev (dropWhile isspace s))"
    unfolding t_def py_strip_def by (rule rev_rev_ident)
  then have "dropWhile isspace (rev t) = rev t"
    by (metis dropWhile_idem)
  then have "rev (dropWhile isspace (rev (dropWhile isspace t))) = t"
    unfolding a by (metis rev_rev_ident)
  then show ?thesis unfolding t_def [symmetric] py_strip_def [of t] .
qed

lemma clean_name_strip: "py_strip (clean_name p) = clean_name p"
  unfolding clean_name_def by (rule py_strip_idem)


lemma split_pieces_nonempty: "split_pieces sep maxsplit s \<noteq> []"
  by (subst split_pieces.simps) (simp split: option.split)

lemma split_item_0_total: "sep \<noteq> [] \<Longrightarrow> \<exists>p. split_item sep maxsplit 0 s = Inr p"
  using split_pieces_nonempty [of sep maxsplit s]
  by (cases "split_pieces sep maxsplit s") (simp_all add: split_item_def py_split_def py_index_def)

lemma py_find_Some: "sublist sub s \<Longrightarrow> \<exists>i. py_find sub s = Some i"
  by (induction s) (auto simp: sublist_Cons_right)

lemma split_item_1_1_total:
  assumes "sep \<noteq> []" "sublist sep s"
  shows "\<exists>p. split_item sep 1 1 s = Inr p"
proof -
  from assms(2) obtain i where "py_find sep s = Some i" using py_find_Some by blast
  with assms(1) have "split_pieces sep 1 s = [take i s, drop (i + length sep) s]"
    by (simp add: split_pieces.simps [of sep 1] split_pieces.simps [of sep 0])
  with assms(1) show ?thesis by (simp add: split_item_def py_split_def py_index_def)
qed

lemma seps_nonempty: "colon_sep \<noteq> []" "bar_sep \<noteq> []"
  by (simp_all add: colon_sep_def bar_sep_def str_def)

lemma gui_name_total: "\<exists>n. AppImageManagerGUI_extract_app_name l = Inr n"
proof -
  obtain p q where "split_item bar_sep (- 1) 0 l = Inr p" "split_item colon_sep 1 0 l = Inr q"
    using split_item_0_total seps_nonempty by blast
  then show ?thesis by (simp add: AppImageManagerGUI_extract_app_name_def)
qed

lemma gui_description_total: "\<exists>d. AppImageManagerGUI_extract_app_description l = Inr d"
proof (cases "sublist colon_sep l")
  case True
  then obtain p where "split_item colon_sep 1 1 l = Inr p"
    using split_item_1_1_total seps_nonempty by blast
  with True show ?thesis by (simp add: AppImageManagerGUI_extract_app_description_def)
next
  case False
  show ?thesis
  proof (cases "sublist bar_sep l")
    case True
    then obtain p where "split_item bar_sep 1 1 l = Inr p"
      using split_item_1_1_total seps_nonempty by blast
    with True False show ?thesis by (simp add: AppImageManagerGUI_extract_app_description_def)
  next
    case False
    with \<open>\<not> sublist colon_sep l\<close> show ?thesis
      by (simp add: AppImageManagerGUI_extract_app_description_def)
  qed
qed

text \<open>
  The refresh as one expression: the lines of the output, the test a line passes, and
  the entry of a line that passes it.
\<close>

definition output_lines :: "pystr \<Rightarrow> pystr list" where
  "output_lines output = (if output = [] then [] else split_pieces [10] (- 1) (py_strip output))"

definition is_app_line :: "pystr \<Rightarrow> bool" where
  "is_app_line l = prefix marker (py_strip l)"

definition installed_entry :: "pystr \<Rightarrow> app_entry" where
  "installed_entry l =
     (projr (AppImageManagerGUI_extract_app_name l),
      py_join (str '' '') (py_splitlines (projr (AppImageManagerGUI_extract_app_description l))),
      True)"

lemma refresh_installed_apps_loop_eq:
  "refresh_installed_apps_loop lines apps =
     Inr (apps @ map installed_entry (filter is_app_line lines))"
proof (induction lines arbitrary: apps)
  case Nil
  show ?case by simp
next
  case (Cons l lines)
  obtain n d where nd: "AppImageManagerGUI_extract_app_name l = Inr n"
      "AppImageManagerGUI_extract_app_description l = Inr d"
    using gui_name_total gui_description_total by blast
  have blank: "py_strip l = [] \<Longrightarrow> \<not> is_app_line l"
    by (simp add: is_app_line_def marker_def)
  show ?case
  proof (cases "is_app_line l")
    case True
    with blank have "py_strip l \<noteq> []" by blast
    with True nd show ?thesis
      by (simp add: Cons.IH is_app_line_def py_startswith_def installed_entry_def)
  next
    case False
    then show ?thesis
      by (simp add: Cons.IH is_app_line_def py_startswith_def)
  qed
qed

lemma refresh_installed_apps_callback_eq:
  "refresh_installed_apps_callback output =
     Inr (map installed_entry (filter is_app_line (output_lines output)))"
  by (simp add: refresh_installed_apps_callback_def output_lines_def py_split_def
      refresh_installed_apps_loop_eq)

lemma FileLoaderWorker_run_loop_flags:
  "list_all (\<lambda>(n, d, is_app). is_app) apps \<Longrightarrow>
   list_all (\<lambda>(n, d, is_app). is_app) (FileLoaderWorker_run_loop lines apps)"
  by (induction lines arbitrary: apps) (auto simp: Let_def split: sum.splits)

lemma gui_name_colon:
  assumes "\<not> sublist colon_sep (l @ butlast colon_sep)" "\<not> sublist bar_sep (l @ colon_sep @ r)"
  shows "AppImageManagerGUI_extract_app_name (l @ colon_sep @ r) = Inr (clean_name l)"
  using assms
  by (simp add: AppImageManagerGUI_extract_app_name_def split_item_colon_0 seps_nonempty)

lemma description_colon:
  assumes "\<not> sublist colon_sep (l @ butlast colon_sep)"
  shows "AppImageManagerGUI_extract_app_description (l @ colon_sep @ r) = Inr (py_strip r)"
    "FileLoaderWorker_extract_app_description (l @ colon_sep @ r) = Inr (py_strip r)"
    "FileLoaderWorker_extract_app_name (l @ colon_sep @ r) = Inr (clean_name l)"
  using assms
  by (simp_all add: AppImageManagerGUI_extract_app_description_def
      FileLoaderWorker_extract_app_description_def FileLoaderWorker_extract_app_name_def
      split_item_1_1 split_item_colon_0 seps_nonempty clean_name_strip)

lemma gui_bar:
  assumes "\<not> sublist colon_sep (l @ bar_sep @ r)" "\<not> sublist bar_sep l"
  shows "AppImageManagerGUI_extract_app_name (l @ bar_sep @ r) = Inr (clean_name l)"
    "AppImageManagerGUI_extract_app_description (l @ bar_sep @ r) = Inr (py_strip r)"
proof -
  have b: "\<not> sublist bar_sep (l @ butlast bar_sep)"
    using assms(2) by (simp add: bar_sep_def str_def)
  show "AppImageManagerGUI_extract_app_name (l @ bar_sep @ r) = Inr (clean_name l)"
    using b by (simp add: AppImageManagerGUI_extract_app_name_def split_item_colon_0 seps_nonempty)
  show "AppImageManagerGUI_extract_app_description (l @ bar_sep @ r) = Inr (py_strip r)"
    using b assms(1)
    by (simp add: AppImageManagerGUI_extract_app_description_def split_item_1_1 seps_nonempty)
qed

lemma file_loader_no_colon:
  assumes "\<not> sublist colon_sep line"
  shows "FileLoaderWorker_extract_app_name line = Inr (clean_name line)"
    "FileLoaderWorker_extract_app_description line = Inr []"
  using assms
  by (simp_all add: FileLoaderWorker_extract_app_name_def
      FileLoaderWorker_extract_app_description_def clean_name_strip)

text \<open>
  Claim C2 says that \<open>" : "\<close> is looked for first, that \<open>"|"\<close> is considered only in a line
  without \<open>" : "\<close>, and that \<open>"|"\<close> is used only on the available-apps path. In the code
  \<open>AppImageManagerGUI.extract_app_name\<close> tests \<open>"|"\<close> first, this parser serves the
  installed-apps refresh, and the loader of the available-apps file knows no \<open>"|"\<close>:
\<close>

theorem line_parser_delimiter_counterexample:
  "AppImageManagerGUI_extract_app_name (marker @ str ''Foo|Bar : baz'') = Inr (str ''Foo'')
   \<and> AppImageManagerGUI_extract_app_name (marker @ str ''Foo|Bar : baz'') \<noteq> Inr (str ''Foo|Bar'')
   \<and> refresh_installed_apps_callback (marker @ str ''a|b'') = Inr [(str ''a'', str ''b'', True)]
   \<and> FileLoaderWorker_run (Some [marker @ str ''a|b'']) = [(str ''a|b'', [], True)]"
  by (simp add: refresh_installed_apps_callback_def FileLoaderWorker_run_def parser_eval)

text \<open>
  Claim C2, amended. A line cut at its first \<open>" : "\<close> into \<open>l\<close> and \<open>r\<close> has the description
  \<open>r\<close> trimmed, in both parsers; its name is \<open>l\<close> trimmed, with the leading marker glyphs
  removed and trimmed again, in the file loader's parser, and in the main window's parser
  when the line has no \<open>"|"\<close>. A line without \<open>" : "\<close> cut at its first \<open>"|"\<close> is split there,
  with the same trimming, by the main window's parser (the one the installed-apps
  refresh calls) only: the file loader of the available-apps path takes the whole line as
  the name. (What the main window's parser returns as the name of a line with both
  delimiters is left open.)
\<close>

theorem line_parser_delimiters:
  "(\<not> sublist colon_sep (l @ butlast colon_sep) \<longrightarrow>
      AppImageManagerGUI_extract_app_description (l @ colon_sep @ r) = Inr (py_strip r)
      \<and> FileLoaderWorker_extract_app_name (l @ colon_sep @ r) = Inr (clean_name l)
      \<and> FileLoaderWorker_extract_app_description (l @ colon_sep @ r) = Inr (py_strip r)
      \<and> (\<not> sublist bar_sep (l @ colon_sep @ r) \<longrightarrow>
           AppImageManagerGUI_extract_app_name (l @ colon_sep @ r) = Inr (clean_name l)))
   \<and> (\<not> sublist colon_sep (l @ bar_sep @ r) \<and> \<not> sublist bar_sep l \<longrightarrow>
        AppImageManagerGUI_extract_app_name (l @ bar_sep @ r) = Inr (clean_name l)
        \<and> AppImageManagerGUI_extract_app_description (l @ bar_sep @ r) = Inr (py_strip r)
        \<and> FileLoaderWorker_extract_app_name (l @ bar_sep @ r) = Inr (clean_name (l @ bar_sep @ r))
        \<and> FileLoaderWorker_extract_app_description (l @ bar_sep @ r) = Inr [])"
  using gui_name_colon [of l r] description_colon [of l r] gui_bar [of l r]
    file_loader_no_colon [of "l @ bar_sep @ r"]
  by blast

text \<open>
  The amended claim at the lines \<open>Foo Bar : does X : extra\<close> (after the marker) and
  \<open>gimp | image editor\<close>.
\<close>

theorem line_parser_delimiters_witness:
  "\<not> sublist colon_sep ((marker @ str ''Foo Bar'') @ butlast colon_sep)
   \<and> \<not> sublist bar_sep ((marker @ str ''Foo Bar'') @ colon_sep @ str ''does X : extra'')
   \<and> AppImageManagerGUI_extract_app_name (marker @ str ''Foo Bar : does X : extra'') = Inr (str ''Foo Bar'')
   \<and> AppImageManagerGUI_extract_app_description (marker @ str ''Foo Bar : does X : extra'')
       = Inr (str ''does X : extra'')
   \<and> \<not> sublist colon_sep (str ''gimp '' @ bar_sep @ str '' image editor'')
   \<and> \<not> sublist bar_sep (str ''gimp '')
   \<and> AppImageManagerGUI_extract_app_name (str ''gimp | image editor'') = Inr (str ''gimp'')
   \<and> AppImageManagerGUI_extract_app_description (str ''gimp | image editor'') = Inr (str ''image editor'')
   \<and> FileLoaderWorker_extract_app_name (str ''gimp | image editor'') = Inr (str ''gimp | image editor'')"
proof -
  have h1: "\<not> sublist colon_sep ((marker @ str ''Foo Bar'') @ butlast colon_sep)"
    and h2: "\<not> sublist bar_sep ((marker @ str ''Foo Bar'') @ colon_sep @ str ''does X : extra'')"
    and h3: "\<not> sublist colon_sep (str ''gimp '' @ bar_sep @ str '' image editor'')"
    and h4: "\<not> sublist bar_sep (str ''gimp '')"
    by (simp_all add: str_def marker_def colon_sep_def bar_sep_def sublist_code)
  have e: "(marker @ str ''Foo Bar'') @ colon_sep @ str ''does X : extra''
        = marker @ str ''Foo Bar : does X : extra''"
    "str ''gimp '' @ bar_sep @ str '' image editor'' = str ''gimp | image editor''"
    "clean_name (marker @ str ''Foo Bar'') = str ''Foo Bar''"
    "py_strip (str ''does X : extra'') = str ''does X : extra''"
    "clean_name (str ''gimp '') = str ''gimp''"
    "py_strip (str '' image editor'') = str ''image editor''"
    "clean_name (str ''gimp | image editor'') = str ''gimp | image editor''"
    by (simp_all add: str_def marker_def colon_sep_def bar_sep_def clean_name_def py_strip_def
        py_lstrip_def isspace_def)
  from line_parser_delimiters [of "marker @ str ''Foo Bar''" "str ''does X : extra''"] h1 h2
  have a: "AppImageManagerGUI_extract_app_name (marker @ str ''Foo Bar : does X : extra'') = Inr (str ''Foo Bar'')"
    "AppImageManagerGUI_extract_app_description (marker @ str ''Foo Bar : does X : extra'')
       = Inr (str ''does X : extra'')"
    unfolding e by blast+
  from line_parser_delimiters [of "str ''gimp ''" "str '' image editor''"] h3 h4
  have b: "AppImageManagerGUI_extract_app_name (str ''gimp | image editor'') = Inr (str ''gimp'')"
    "AppImageManagerGUI_extract_app_description (str ''gimp | image editor'') = Inr (str ''image editor'')"
    "FileLoaderWorker_extract_app_name (str ''gimp | image editor'') = Inr (str ''gimp | image editor'')"
    unfolding e by blast+
  from h1 h2 h3 h4 a b show ?thesis by blast
qed

text \<open>
  Claim C3 says that exactly one leading marker glyph is removed, so that a line with two
  keeps one. \<open>lstrip\<close> removes both:
\<close>

theorem line_parser_no_delimiter_counterexample:
  "\<not> sublist colon_sep (marker @ marker @ str ''App'')
   \<and> \<not> sublist bar_sep (marker @ marker @ str ''App'')
   \<and> AppImageManagerGUI_extract_app_name (marker @ marker @ str ''App'') = Inr (str ''App'')
   \<and> FileLoaderWorker_extract_app_name (marker @ marker @ str ''App'') = Inr (str ''App'')
   \<and> str ''App'' \<noteq> marker @ str ''App''"
  by (simp add: parser_eval)

text \<open>
  Claim C3, amended. For a line with neither delimiter both parsers return an empty
  description and, as the name, the trimmed line with all its leading marker glyphs
  removed and trimmed again.
\<close>

theorem line_parser_no_delimiter:
  "\<not> sublist colon_sep line \<Longrightarrow> \<not> sublist bar_sep line \<Longrightarrow>
     AppImageManagerGUI_extract_app_name line = Inr (py_strip (py_lstrip marker (py_strip line)))
     \<and> AppImageManagerGUI_extract_app_description line = Inr []
     \<and> FileLoaderWorker_extract_app_name line = Inr (py_strip (py_lstrip marker (py_strip line)))
     \<and> FileLoaderWorker_extract_app_description line = Inr []"
  using file_loader_no_colon [of line]
  by (simp add: AppImageManagerGUI_extract_app_name_def
      AppImageManagerGUI_extract_app_description_def clean_name_def)

text \<open>
  The amended claim at a line with surrounding blanks and two marker glyphs.
\<close>

theorem line_parser_no_delimiter_witness:
  "\<not> sublist colon_sep (str ''  '' @ marker @ marker @ str '' vlc  '')
   \<and> \<not> sublist bar_sep (str ''  '' @ marker @ marker @ str '' vlc  '')
   \<and> AppImageManagerGUI_extract_app_name (str ''  '' @ marker @ marker @ str '' vlc  '') = Inr (str ''vlc'')
   \<and> AppImageManagerGUI_extract_app_description (str ''  '' @ marker @ marker @ str '' vlc  '') = Inr []
   \<and> FileLoaderWorker_extract_app_name (str ''  '' @ marker @ marker @ str '' vlc  '') = Inr (str ''vlc'')
   \<and> FileLoaderWorker_extract_app_description (str ''  '' @ marker @ marker @ str '' vlc  '') = Inr []"
proof -
  have h: "\<not> sublist colon_sep (str ''  '' @ marker @ marker @ str '' vlc  '')"
    "\<not> sublist bar_sep (str ''  '' @ marker @ marker @ str '' vlc  '')"
    by (simp_all add: str_def marker_def colon_sep_def bar_sep_def sublist_code)
  have e: "py_strip (py_lstrip marker (py_strip (str ''  '' @ marker @ marker @ str '' vlc  '')))
      = str ''vlc''"
    by (simp add: str_def marker_def py_strip_def py_lstrip_def isspace_def)
  from line_parser_no_delimiter [OF h] h show ?thesis unfolding e by blast
qed

text \<open>
  Claim C5 says that only lines beginning with the marker glyph produce entries. The test
  is made on the trimmed line: the second line of this output begins with two blanks and
  produces an entry.
\<close>

theorem refresh_installed_apps_counterexample:
  "refresh_installed_apps_callback (str ''Installed:'' @ [10, 32, 32] @ marker @ str ''App1 : desc1'' @ [10])
     = Inr [(str ''App1'', str ''desc1'', True)]
   \<and> split_pieces [10] (- 1) (py_strip (str ''Installed:'' @ [10, 32, 32] @ marker @ str ''App1 : desc1'' @ [10]))
     = [str ''Installed:'', [32, 32] @ marker @ str ''App1 : desc1'']
   \<and> \<not> py_startswith ([32, 32] @ marker @ str ''App1 : desc1'') marker"
  by (simp add: refresh_installed_apps_callback_def parser_eval)

text \<open>
  Claim C5, amended. The installed-apps refresh never fails; its entries are, in order,
  those of the lines (the pieces of the trimmed output between newlines) whose trimmed
  text begins with the marker glyph, every other line is dropped, every entry is flagged,
  and the mock output gives exactly the two entries \<open>App1\<close>/\<open>desc1\<close> and \<open>App2\<close>/\<open>desc2\<close>.
\<close>

theorem refresh_installed_apps_marker_lines:
  "refresh_installed_apps_callback output =
     Inr (map installed_entry (filter is_app_line (output_lines output)))
   \<and> list_all (\<lambda>(app_name, description, is_app). is_app)
        (map installed_entry (filter is_app_line (output_lines output)))
   \<and> refresh_installed_apps_callback
        (marker @ str ''App1 : desc1'' @ [10] @ str ''not-an-app-line'' @ [10] @
         marker @ str ''App2 : desc2'' @ [10])
      = Inr [(str ''App1'', str ''desc1'', True), (str ''App2'', str ''desc2'', True)]"
proof (intro conjI)
  show "refresh_installed_apps_callback output =
     Inr (map installed_entry (filter is_app_line (output_lines output)))"
    by (rule refresh_installed_apps_callback_eq)
  show "list_all (\<lambda>(app_name, description, is_app). is_app)
        (map installed_entry (filter is_app_line (output_lines output)))"
    by (simp add: list_all_iff installed_entry_def)
  show "refresh_installed_apps_callback
        (marker @ str ''App1 : desc1'' @ [10] @ str ''not-an-app-line'' @ [10] @
         marker @ str ''App2 : desc2'' @ [10])
      = Inr [(str ''App1'', str ''desc1'', True), (str ''App2'', str ''desc2'', True)]"
    by (simp add: refresh_installed_apps_callback_def parser_eval)
qed

text \<open>
  Claim C7 says that entries of the available-apps file do not carry the flag as true.
  \<open>FileLoaderWorker.run\<close> sets \<open>is_app = True\<close> for every entry:
\<close>

theorem is_app_flag_counterexample:
  "FileLoaderWorker_run (Some [marker @ str ''firefox : web browser'' @ [10], str ''vlc'' @ [10]])
     = [(str ''firefox'', str ''web browser'', True), (str ''vlc'', [], True)]"
  by (simp add: FileLoaderWorker_run_def parser_eval)

text \<open>
  Claim C7, amended. Every entry the program builds carries the flag \<open>True\<close>: the entries
  of the available-apps file, where the loader sets it, and the entries of the
  installed-apps refresh, where it is the result of the marker test the line passed.
\<close>

theorem is_app_flag_always_true:
  "list_all (\<lambda>(app_name, description, is_app). is_app) (FileLoaderWorker_run file)
   \<and> (\<exists>apps. refresh_installed_apps_callback output = Inr apps
        \<and> list_all (\<lambda>(app_name, description, is_app). is_app) apps)"
proof
  show "list_all (\<lambda>(app_name, description, is_app). is_app) (FileLoaderWorker_run file)"
    by (cases "file") (simp_all add: FileLoaderWorker_run_def FileLoaderWorker_run_loop_flags)
  show "\<exists>apps. refresh_installed_apps_callback output = Inr apps
        \<and> list_all (\<lambda>(app_name, description, is_app). is_app) apps"
    by (simp add: refresh_installed_apps_callback_eq list_all_iff installed_entry_def)
qed

section \<open>Install action\<close>

text \<open>
  The callbacks of \<open>install_selected_appimage\<close> and of
  \<open>install_selected_appimage_from_suggested\<close>: the value is \<open>display_output\<close>, the text of
  the message box. \<open>output.split(success_message_start)[-1]\<close> is the last piece.
\<close>

definition success_message_start :: pystr where
  "success_message_start = str ''The following new programs have been installed:''"

definition install_selected_appimage_callback :: "pystr \<Rightarrow> py_error + pystr" where
  "install_selected_appimage_callback output =
     (if sublist success_message_start output
      then map_sum id (\<lambda>tail. success_message_start @ [10] @ py_strip tail)
             (split_item success_message_start (- 1) (- 1) output)
      else Inr output)"

definition install_selected_appimage_from_suggested_callback :: "pystr \<Rightarrow> py_error + pystr" where
  "install_selected_appimage_from_suggested_callback output =
     (if sublist success_message_start output
      then map_sum id (\<lambda>tail. success_message_start @ [10] @ py_strip tail)
             (split_item success_message_start (- 1) (- 1) output)
      else Inr output)"

text \<open>
  The phrase begins with a letter that does not occur in it again, so two occurrences of
  it never overlap and the last piece of the split is the text after its last occurrence.
\<close>

lemma first_occurrence:
  assumes "sep \<noteq> []"
  shows "sublist sep u \<Longrightarrow> \<exists>a b. u = a @ sep @ b \<and> \<not> sublist sep (a @ butlast sep)"
proof (induction u)
  case Nil
  with assms show ?case by simp
next
  case (Cons x u)
  show ?case
  proof (cases "prefix sep (x # u)")
    case True
    then obtain b where "x # u = [] @ sep @ b" by (auto simp: prefix_def)
    moreover have "\<not> sublist sep ([] @ butlast sep)"
      using assms sublist_length_le [of sep "butlast sep"] by (cases sep) auto
    ultimately show ?thesis by blast
  next
    case False
    with Cons.prems have "sublist sep u" by (simp add: sublist_Cons_right)
    then obtain a b where ab: "u = a @ sep @ b" "\<not> sublist sep (a @ butlast sep)"
      using Cons.IH by blast
    have "prefix (x # a @ butlast sep) (x # u)"
      unfolding ab(1) using assms
      by (metis append_butlast_last_id append_assoc prefixI Cons_prefix_Cons same_prefix_prefix)
    with False have "\<not> prefix sep (x # a @ butlast sep)"
      using prefix_order.trans by blast
    with ab(2) have "\<not> sublist sep ((x # a) @ butlast sep)"
      by (simp add: sublist_Cons_right)
    moreover have "x # u = (x # a) @ sep @ b" using ab(1) by simp
    ultimately show ?thesis by blast
  qed
qed

lemma unbordered_cut:
  assumes eq: "pre @ sep @ tail = a @ sep @ b"
    and ub: "hd sep \<notin> set (tl sep)" and ne: "sep \<noteq> []"
    and first: "\<not> sublist sep (a @ butlast sep)"
  shows "(a = pre \<and> b = tail) \<or> (\<exists>us. pre = a @ sep @ us \<and> b = us @ sep @ tail)"
proof -
  have "\<exists>us. pre = a @ us \<and> us @ sep @ tail = sep @ b \<or> pre @ us = a \<and> sep @ tail = us @ sep @ b"
    using eq by (rule iffD1 [OF append_eq_append_conv2])
  then obtain us where
    "pre = a @ us \<and> us @ sep @ tail = sep @ b \<or> pre @ us = a \<and> sep @ tail = us @ sep @ b" ..
  then show ?thesis
  proof
    assume c2: "pre @ us = a \<and> sep @ tail = us @ sep @ b"
    show ?thesis
    proof (cases "us = []")
      case True
      with c2 show ?thesis by simp
    next
      case False
      from c2 have "prefix sep (us @ sep @ b)" by (metis prefixI)
      then have "prefix sep (us @ butlast sep)" using False by (rule prefix_overlap)
      then have "sublist sep (us @ butlast sep)" by (rule prefix_imp_sublist)
      then have "sublist sep (pre @ us @ butlast sep)"
        unfolding sublist_def by (metis append_assoc)
      moreover from c2 have "a @ butlast sep = pre @ us @ butlast sep" by auto
      ultimately have False using first by metis
      then show ?thesis ..
    qed
  next
    assume c1: "pre = a @ us \<and> us @ sep @ tail = sep @ b"
    then have "\<exists>vs. us = sep @ vs \<and> vs @ sep @ tail = b \<or> us @ vs = sep \<and> sep @ tail = vs @ b"
      by (simp only: append_eq_append_conv2 [of us "sep @ tail" sep b])
    then obtain vs where
      "us = sep @ vs \<and> vs @ sep @ tail = b \<or> us @ vs = sep \<and> sep @ tail = vs @ b" ..
    then show ?thesis
    proof
      assume "us = sep @ vs \<and> vs @ sep @ tail = b"
      with c1 show ?thesis by blast
    next
      assume d: "us @ vs = sep \<and> sep @ tail = vs @ b"
      then have d1: "sep = us @ vs" and d2: "sep @ tail = vs @ b" by simp_all
      from c1 have p: "pre = a @ us" by (rule conjunct1)
      show ?thesis
      proof (cases "us = []")
        case True
        with d1 have "vs = sep" by simp
        with d2 have "b = tail" by simp
        moreover from True p have "a = pre" by simp
        ultimately show ?thesis by blast
      next
        case False
        note usne = this
        show ?thesis
        proof (cases "vs = []")
          case True
          with d1 have "us = sep" by simp
          with p have "pre = a @ sep @ []" by simp
          moreover from True d2 have "b = [] @ sep @ tail" by simp
          ultimately show ?thesis by blast
        next
          case False
          from d2 have "hd (sep @ tail) = hd (vs @ b)" by (rule arg_cong)
          with False ne have "hd sep = hd vs" by simp
          moreover have "tl (us @ vs) = tl us @ vs" using usne by simp
          then have "tl sep = tl us @ vs" by (simp only: d1 [symmetric])
          moreover have "hd vs \<in> set vs" using False by simp
          ultimately show ?thesis using ub by simp
        qed
      qed
    qed
  qed
qed

lemma split_pieces_last:
  assumes ne: "sep \<noteq> []" and ub: "hd sep \<notin> set (tl sep)" and nt: "\<not> sublist sep tail"
  shows "m < 0 \<Longrightarrow> last (split_pieces sep m (pre @ sep @ tail)) = tail"
proof (induction "length pre" arbitrary: pre m rule: less_induct)
  case less
  have "sublist sep (pre @ sep @ tail)" by simp
  then obtain a b where ab: "pre @ sep @ tail = a @ sep @ b" "\<not> sublist sep (a @ butlast sep)"
    using first_occurrence [OF ne] by blast
  from less.prems have m: "m \<noteq> 0" "m - 1 < 0" by simp_all
  have sp: "split_pieces sep m (pre @ sep @ tail) = a # split_pieces sep (m - 1) b"
    unfolding ab(1) using ne ab(2) m(1) by (rule split_pieces_first)
  from unbordered_cut [OF ab(1) ub ne ab(2)]
  show ?case
  proof
    assume "a = pre \<and> b = tail"
    moreover have "split_pieces sep (m - 1) tail = [tail]"
      using nt m(2) by (subst split_pieces.simps) (simp add: py_find_None)
    ultimately show ?thesis using sp by simp
  next
    assume "\<exists>us. pre = a @ sep @ us \<and> b = us @ sep @ tail"
    then obtain us where us: "pre = a @ sep @ us" "b = us @ sep @ tail" by blast
    then have "length us < length pre" using ne by simp
    from less.hyps [OF this m(2)] us(2) sp split_pieces_nonempty [of sep "m - 1" b]
    show ?thesis by simp
  qed
qed

lemma success_message_start_unbordered:
  "success_message_start \<noteq> []" "hd success_message_start \<notin> set (tl success_message_start)"
  by (simp_all add: success_message_start_def str_def)

lemma split_item_last:
  "split_item sep (- 1) (- 1) s = (if sep = [] then Inl ValueError else Inr (last (split_pieces sep (- 1) s)))"
  using split_pieces_nonempty [of sep "- 1" s]
  by (cases "split_pieces sep (- 1) s" rule: rev_cases)
     (auto simp: split_item_def py_split_def py_index_def nth_append)

lemma install_callback_marker:
  assumes "\<not> sublist success_message_start tail"
  shows "install_selected_appimage_callback (pre @ success_message_start @ tail)
      = Inr (success_message_start @ [10] @ py_strip tail)"
    "install_selected_appimage_from_suggested_callback (pre @ success_message_start @ tail)
      = Inr (success_message_start @ [10] @ py_strip tail)"
  using split_pieces_last [OF success_message_start_unbordered assms, of "- 1" pre]
    success_message_start_unbordered(1)
  by (simp_all add: install_selected_appimage_callback_def
      install_selected_appimage_from_suggested_callback_def split_item_last)

lemmas install_eval = install_selected_appimage_callback_def
  install_selected_appimage_from_suggested_callback_def success_message_start_def str_def
  split_item_def py_split_def py_index_def split_pieces.simps py_strip_def isspace_def sublist_code

text \<open>
  Claim C8 says that the message is only the text following the marker phrase. The code
  puts the phrase itself and a newline before that text, and trims the text:
\<close>

theorem install_message_counterexample:
  "install_selected_appimage_callback
     (str ''Installing vlc'' @ [10] @ success_message_start @ [10] @ str ''  vlc'' @ [10])
     = Inr (success_message_start @ [10] @ str ''vlc'')
   \<and> install_selected_appimage_from_suggested_callback
     (str ''Installing vlc'' @ [10] @ success_message_start @ [10] @ str ''  vlc'' @ [10])
     = Inr (success_message_start @ [10] @ str ''vlc'')
   \<and> success_message_start @ [10] @ str ''vlc'' \<noteq> [10] @ str ''  vlc'' @ [10]"
  by (simp add: install_eval)

text \<open>
  Claim C8, amended. When the output contains the marker phrase, the message is the
  phrase, a newline and the trimmed text that follows the last occurrence of the phrase
  (\<open>tail\<close>, in which the phrase does not occur again); when it does not, the message is
  the output as it is. Both install callbacks behave so.
\<close>

theorem install_message_after_marker:
  "(\<not> sublist success_message_start tail \<longrightarrow>
      install_selected_appimage_callback (pre @ success_message_start @ tail)
        = Inr (success_message_start @ [10] @ py_strip tail)
      \<and> install_selected_appimage_from_suggested_callback (pre @ success_message_start @ tail)
        = Inr (success_message_start @ [10] @ py_strip tail))
   \<and> (\<not> sublist success_message_start output \<longrightarrow>
      install_selected_appimage_callback output = Inr output
      \<and> install_selected_appimage_from_suggested_callback output = Inr output)"
  using install_callback_marker [of tail pre]
  by (simp add: install_selected_appimage_callback_def
      install_selected_appimage_from_suggested_callback_def)

text \<open>
  The amended claim at an output with two occurrences of the phrase, and at one with none.
\<close>

theorem install_message_after_marker_witness:
  "\<not> sublist success_message_start ([10] @ str ''  vlc'' @ [10])
   \<and> install_selected_appimage_callback
        (success_message_start @ [10] @ str ''old'' @ [10] @ success_message_start @ [10] @ str ''  vlc'' @ [10])
      = Inr (success_message_start @ [10] @ str ''vlc'')
   \<and> install_selected_appimage_from_suggested_callback
        (success_message_start @ [10] @ str ''old'' @ [10] @ success_message_start @ [10] @ str ''  vlc'' @ [10])
      = Inr (success_message_start @ [10] @ str ''vlc'')
   \<and> \<not> sublist success_message_start (str ''Nothing to do.'')
   \<and> install_selected_appimage_callback (str ''Nothing to do.'') = Inr (str ''Nothing to do.'')
   \<and> install_selected_appimage_from_suggested_callback (str ''Nothing to do.'') = Inr (str ''Nothing to do.'')"
proof -
  have h1: "\<not> sublist success_message_start ([10] @ str ''  vlc'' @ [10])"
    and h2: "\<not> sublist success_message_start (str ''Nothing to do.'')"
    by (simp_all add: success_message_start_def str_def sublist_code)
  have e: "py_strip ([10] @ str ''  vlc'' @ [10]) = str ''vlc''"
    by (simp add: str_def py_strip_def isspace_def)
  from install_message_after_marker
    [of "[10] @ str ''  vlc'' @ [10]" "success_message_start @ [10] @ str ''old'' @ [10]"
        "str ''Nothing to do.''"] h1 h2
  show ?thesis unfolding e by simp
qed

section \<open>Async command runner\<close>

text \<open>
  The \<open>Worker\<close>: its two buffers and the signals it emits. The process writes chunks to
  its standard output and to its standard error; a chunk is given decoded
  (\<open>decode(errors='replace')\<close> gives a non-empty text for non-empty bytes).
\<close>

record worker =
  output_data :: pystr
  error_data :: pystr

datatype signal = Output_ready pystr | Error_occurred pystr | Finished

datatype process_write = Write_stdout pystr | Write_stderr pystr

definition Worker_init :: worker where
  "Worker_init = \<lparr>output_data = [], error_data = []\<rparr>"

definition handle_stdout :: "pystr \<Rightarrow> worker \<Rightarrow> worker" where
  "handle_stdout data w = w\<lparr>output_data := output_data w @ strip_ansi_escape_codes data\<rparr>"

definition handle_stderr :: "pystr \<Rightarrow> worker \<Rightarrow> worker" where
  "handle_stderr data w = w\<lparr>error_data := error_data w @ strip_ansi_escape_codes data\<rparr>"

definition process_finished :: "worker \<Rightarrow> signal list" where
  "process_finished w =
     (if error_data w \<noteq> [] then [Error_occurred (error_data w)]
      else [Output_ready (output_data w)]) @ [Finished]"

text \<open>
  \<open>Worker.run\<close> connects the two handlers and \<open>process_finished\<close> and sets the channel mode
  of the process. In the mode \<open>QProcess.MergedChannels\<close> Qt merges what the process writes
  to standard error into the standard output channel, and the standard error channel
  receives no data: every chunk is read by \<open>handle_stdout\<close>. In the mode
  \<open>QProcess.SeparateChannels\<close> each channel has its own.
\<close>

datatype channel_mode = SeparateChannels | MergedChannels

fun qprocess_deliver :: "channel_mode \<Rightarrow> process_write list \<Rightarrow> worker \<Rightarrow> worker" where
  "qprocess_deliver mode [] w = w"
| "qprocess_deliver mode (Write_stdout data # ws) w =
     qprocess_deliver mode ws (handle_stdout data w)"
| "qprocess_deliver mode (Write_stderr data # ws) w =
     qprocess_deliver mode ws
       (if mode = MergedChannels then handle_stdout data w else handle_stderr data w)"

definition Worker_run :: "process_write list \<Rightarrow> signal list" where
  "Worker_run writes = process_finished (qprocess_deliver MergedChannels writes Worker_init)"

text \<open>The text of a chunk, whichever channel it was written to.\<close>

fun written :: "process_write \<Rightarrow> pystr" where
  "written (Write_stdout data) = data"
| "written (Write_stderr data) = data"

lemma qprocess_deliver_merged:
  "qprocess_deliver MergedChannels ws w =
     \<lparr>output_data = output_data w @ concat (map (\<lambda>c. strip_ansi_escape_codes (written c)) ws),
      error_data = error_data w\<rparr>"
  by (induction MergedChannels ws w rule: qprocess_deliver.induct)
     (simp_all add: handle_stdout_def)

text \<open>
  Claim C1 holds of no run in which the process writes to its standard error. As
  \<open>Worker.run\<close> merges the channels, \<open>error_data\<close> stays empty: whatever the process
  writes, and to whichever channel, the worker emits the success signal, once, with all
  of it (each chunk stripped of its escape codes), and then the completion signal; the
  failure signal is never emitted. A process that writes \<open>Installing\<close> to its output and
  \<open>error: no such app\<close> to its standard error ends in the success callback.
\<close>

theorem worker_stderr_ends_in_success_callback:
  "Worker_run writes =
     [Output_ready (concat (map (\<lambda>c. strip_ansi_escape_codes (written c)) writes)), Finished]
   \<and> Worker_run [Write_stdout (str ''Installing''), Write_stderr (str ''error: no such app'')]
       = [Output_ready (str ''Installingerror: no such app''), Finished]"
proof
  show g: "Worker_run writes =
     [Output_ready (concat (map (\<lambda>c. strip_ansi_escape_codes (written c)) writes)), Finished]"
    for writes
    by (simp add: Worker_run_def Worker_init_def process_finished_def qprocess_deliver_merged)
  show "Worker_run [Write_stdout (str ''Installing''), Write_stderr (str ''error: no such app'')]
       = [Output_ready (str ''Installingerror: no such app''), Finished]"
    by (simp add: g str_def)
qed

section \<open>Search over the available apps\<close>

text \<open>
  The part of the main window the search reads and writes: the list loaded from the
  file (\<open>all_available_apps\<close>), the list \<open>display_available_apps\<close> last gave to the view
  (\<open>available_apps\<close>) and the text of the search box. What a slot does besides is a list
  of effects: a dialog, a backend call through \<open>run_script_async\<close>, a file load.
\<close>

record gui_state =
  all_available_apps :: "app_entry list"
  available_apps :: "app_entry list"
  search_box_text :: pystr

datatype effect =
    QMessageBox_warning pystr pystr
  | Run_script_async "pystr list"
  | Load_apps_from_file pystr

definition display_available_apps :: "app_entry list \<Rightarrow> gui_state \<Rightarrow> gui_state" where
  "display_available_apps apps st = st\<lparr>available_apps := apps\<rparr>"

text \<open>
  \<open>str.lower\<close> follows the Unicode tables of the Python library; it is the parameter
  \<open>lower\<close>. On ASCII text it is \<open>ascii_lower\<close>.
\<close>

definition ascii_lower :: "pystr \<Rightarrow> pystr" where
  "ascii_lower s = map (\<lambda>c. if 65 \<le> c \<and> c \<le> 90 then c + 32 else c) s"

definition perform_search :: "(pystr \<Rightarrow> pystr) \<Rightarrow> gui_state \<Rightarrow> gui_state \<times> effect list" where
  "perform_search lower st =
     (let search_text = py_strip (search_box_text st) in
      if search_text = []
      then (st, [QMessageBox_warning (str ''Input Required'') (str ''Please enter a search term.'')])
      else
        (display_available_apps
           (filter (\<lambda>(app_name, description, is_app).
                      sublist (lower search_text) (lower app_name)
                      \<or> sublist (lower search_text) (lower description))
              (all_available_apps st))
           st,
         []))"

text \<open>
  The two ways into the search: \<open>search_box.textChanged\<close> is connected to
  \<open>on_search_text_changed\<close>, \<open>search_button.clicked\<close> straight to \<open>perform_search\<close>.
\<close>

definition search_button_clicked ::
  "(pystr \<Rightarrow> pystr) \<Rightarrow> gui_state \<Rightarrow> gui_state \<times> effect list" where
  "search_button_clicked lower st = perform_search lower st"

definition on_search_text_changed ::
  "(pystr \<Rightarrow> pystr) \<Rightarrow> pystr \<Rightarrow> gui_state \<Rightarrow> gui_state \<times> effect list" where
  "on_search_text_changed lower text st =
     (if 2 \<le> length text then perform_search lower st else (st, []))"

text \<open>
  Claim C6 says that a query shorter than 2 characters does not alter the displayed list
  and that a longer one filters it to the entries that contain the query. The search
  button has no length test: the query \<open>f\<close> filters the list. And the query is trimmed
  first: the entry \<open>ab\<close> is kept for the query \<open>ab\<close> followed by a blank, which it does not
  contain, and for a query of two blanks the list stays as it is and a warning is shown.
\<close>

theorem search_query_counterexample:
  "search_button_clicked ascii_lower
     \<lparr>all_available_apps = [(str ''firefox'', [], True), (str ''vlc'', [], True)],
      available_apps = [(str ''firefox'', [], True), (str ''vlc'', [], True)],
      search_box_text = str ''f''\<rparr>
   = (\<lparr>all_available_apps = [(str ''firefox'', [], True), (str ''vlc'', [], True)],
       available_apps = [(str ''firefox'', [], True)],
       search_box_text = str ''f''\<rparr>, [])
   \<and> on_search_text_changed ascii_lower (str ''ab '')
     \<lparr>all_available_apps = [(str ''ab'', [], True), (str ''cd'', [], True)],
      available_apps = [(str ''ab'', [], True), (str ''cd'', [], True)],
      search_box_text = str ''ab ''\<rparr>
   = (\<lparr>all_available_apps = [(str ''ab'', [], True), (str ''cd'', [], True)],
       available_apps = [(str ''ab'', [], True)],
       search_box_text = str ''ab ''\<rparr>, [])
   \<and> \<not> sublist (ascii_lower (str ''ab '')) (ascii_lower (str ''ab''))
   \<and> \<not> sublist (ascii_lower (str ''ab '')) (ascii_lower [])
   \<and> on_search_text_changed ascii_lower (str ''  '')
     \<lparr>all_available_apps = [(str ''ab'', [], True), (str ''cd'', [], True)],
      available_apps = [(str ''ab'', [], True), (str ''cd'', [], True)],
      search_box_text = str ''  ''\<rparr>
   = (\<lparr>all_available_apps = [(str ''ab'', [], True), (str ''cd'', [], True)],
       available_apps = [(str ''ab'', [], True), (str ''cd'', [], True)],
       search_box_text = str ''  ''\<rparr>,
      [QMessageBox_warning (str ''Input Required'') (str ''Please enter a search term.'')])
   \<and> \<not> sublist (ascii_lower (str ''  '')) (ascii_lower (str ''ab''))"
  by (simp add: on_search_text_changed_def search_button_clicked_def perform_search_def
      display_available_apps_def Let_def ascii_lower_def str_def py_strip_def isspace_def
      sublist_code)

text \<open>
  Claim C6, amended. When the text of the search box changes to \<open>text\<close> (the automatic
  search), a text shorter than 2 characters starts no search and changes nothing, and a
  text of 2 or more characters runs the search. The search button runs the search
  whatever the length of the text. The search trims the text of the box: when the
  trimmed query \<open>q\<close> is not empty, the displayed list becomes exactly the entries of the
  cached list whose lower-cased name or description contains the lower-cased \<open>q\<close>, the
  cached list stays as it is and there is no backend call and no file load; when it is
  empty, a warning is shown and nothing changes.
\<close>

theorem search_filters_cached_list:
  "(search_box_text st = text \<longrightarrow>
      (length text < 2 \<longrightarrow> on_search_text_changed lower text st = (st, []))
      \<and> (2 \<le> length text \<longrightarrow>
            on_search_text_changed lower text st = search_button_clicked lower st))
   \<and> (py_strip (search_box_text st) \<noteq> [] \<longrightarrow>
        search_button_clicked lower st =
          (st\<lparr>available_apps :=
               filter (\<lambda>(app_name, description, is_app).
                         sublist (lower (py_strip (search_box_text st))) (lower app_name)
                         \<or> sublist (lower (py_strip (search_box_text st))) (lower description))
                 (all_available_apps st)\<rparr>,
           []))
   \<and> (py_strip (search_box_text st) = [] \<longrightarrow>
        search_button_clicked lower st =
          (st, [QMessageBox_warning (str ''Input Required'') (str ''Please enter a search term.'')]))"
  by (simp add: on_search_text_changed_def search_button_clicked_def perform_search_def
      display_available_apps_def Let_def)

text \<open>
  The amended claim at the texts \<open>F\<close>, \<open>Fire\<close> with blanks around it, and two blanks, typed
  and searched with the button.
\<close>

theorem search_filters_cached_list_witness:
  "on_search_text_changed ascii_lower (str ''F'')
     \<lparr>all_available_apps = [(str ''firefox'', str ''Browser'', True), (str ''vlc'', str ''player'', True)],
      available_apps = [(str ''vlc'', str ''player'', True)],
      search_box_text = str ''F''\<rparr>
   = (\<lparr>all_available_apps = [(str ''firefox'', str ''Browser'', True), (str ''vlc'', str ''player'', True)],
       available_apps = [(str ''vlc'', str ''player'', True)],
       search_box_text = str ''F''\<rparr>, [])
   \<and> search_button_clicked ascii_lower
     \<lparr>all_available_apps = [(str ''firefox'', str ''Browser'', True), (str ''vlc'', str ''player'', True)],
      available_apps = [(str ''vlc'', str ''player'', True)],
      search_box_text = str ''F''\<rparr>
   = (\<lparr>all_available_apps = [(str ''firefox'', str ''Browser'', True), (str ''vlc'', str ''player'', True)],
       available_apps = [(str ''firefox'', str ''Browser'', True)],
       search_box_text = str ''F''\<rparr>, [])
   \<and> on_search_text_changed ascii_lower (str '' Fire '')
     \<lparr>all_available_apps = [(str ''firefox'', str ''Browser'', True), (str ''vlc'', str ''player'', True)],
      available_apps = [(str ''vlc'', str ''player'', True)],
      search_box_text = str '' Fire ''\<rparr>
   = (\<lparr>all_available_apps = [(str ''firefox'', str ''Browser'', True), (str ''vlc'', str ''player'', True)],
       available_apps = [(str ''firefox'', str ''Browser'', True)],
       search_box_text = str '' Fire ''\<rparr>, [])
   \<and> on_search_text_changed ascii_lower (str ''  '')
     \<lparr>all_available_apps = [(str ''firefox'', str ''Browser'', True), (str ''vlc'', str ''player'', True)],
      available_apps = [(str ''vlc'', str ''player'', True)],
      search_box_text = str ''  ''\<rparr>
   = (\<lparr>all_available_apps = [(str ''firefox'', str ''Browser'', True), (str ''vlc'', str ''player'', True)],
       available_apps = [(str ''vlc'', str ''player'', True)],
       search_box_text = str ''  ''\<rparr>,
      [QMessageBox_warning (str ''Input Required'') (str ''Please enter a search term.'')])"
proof -
  let ?all = "[(str ''firefox'', str ''Browser'', True), (str ''vlc'', str ''player'', True)]"
  let ?st = "\<lambda>t. \<lparr>all_available_apps = ?all, available_apps = [(str ''vlc'', str ''player'', True)],
      search_box_text = t\<rparr>"
  note ev = str_def py_strip_def isspace_def ascii_lower_def sublist_code
  have a: "on_search_text_changed ascii_lower (str ''F'') (?st (str ''F'')) = (?st (str ''F''), [])"
    using search_filters_cached_list [of "?st (str ''F'')" "str ''F''" ascii_lower]
    by (simp add: str_def)
  have b: "search_button_clicked ascii_lower (?st (str ''F''))
      = ((?st (str ''F''))\<lparr>available_apps := [(str ''firefox'', str ''Browser'', True)]\<rparr>, [])"
    using search_filters_cached_list [of "?st (str ''F'')" "str ''F''" ascii_lower]
    by (simp add: ev)
  have c: "on_search_text_changed ascii_lower (str '' Fire '') (?st (str '' Fire ''))
      = ((?st (str '' Fire ''))\<lparr>available_apps := [(str ''firefox'', str ''Browser'', True)]\<rparr>, [])"
    using search_filters_cached_list [of "?st (str '' Fire '')" "str '' Fire ''" ascii_lower]
    by (simp add: ev)
  have d: "on_search_text_changed ascii_lower (str ''  '') (?st (str ''  ''))
      = (?st (str ''  ''), [QMessageBox_warning (str ''Input Required'') (str ''Please enter a search term.'')])"
    using search_filters_cached_list [of "?st (str ''  '')" "str ''  ''" ascii_lower]
    by (simp add: ev)
  from a b c d show ?thesis by simp
qed

section \<open>Backend bootstrap: the installer step\<close>

text \<open>
  The disk maps a path to what is there, a directory or a file with its content.
  \<open>os.path.exists\<close> of a path is whether something is there. \<open>os.remove\<close> removes a file;
  it raises when the path is a directory, when nothing is there, and when the system
  refuses the removal (the parameter \<open>remove_refused\<close>), and then the disk is as before.
\<close>

datatype node = Directory | File "nat list"

type_synonym disk = "pystr \<rightharpoonup> node"

datatype exn = CalledProcessError | OSError | Exn py_error
















section \<open>Icon cache\<close>

text \<open>
  \<open>os.path.basename\<close>, \<open>os.path.dirname\<close> and \<open>os.path.join\<close> of two components, as
  \<open>posixpath\<close> defines them.
\<close>

definition os_path_basename :: "pystr \<Rightarrow> pystr" where
  "os_path_basename p = rev (takeWhile (\<lambda>c. c \<noteq> 47) (rev p))"

definition os_path_dirname :: "pystr \<Rightarrow> pystr" where
  "os_path_dirname p =
     (let head = rev (dropWhile (\<lambda>c. c \<noteq> 47) (rev p)) in
      if head \<noteq> [] \<and> \<not> list_all (\<lambda>c. c = 47) head
      then rev (dropWhile (\<lambda>c. c = 47) (rev head))
      else head)"

definition os_path_join :: "pystr \<Rightarrow> pystr \<Rightarrow> pystr" where
  "os_path_join a b =
     (if prefix [47] b then b
      else if a = [] \<or> suffix [47] a then a @ b
      else a @ [47] @ b)"

definition ICON_CACHE_DIR :: pystr where
  "ICON_CACHE_DIR = str ''./icon_cache''"

text \<open>
  The disk is keyed by the paths of its entries, relative to the working directory.
  \<open>os.path.exists\<close> follows the path: a path that ends in a slash, in \<open>.\<close> or in \<open>..\<close> names
  the directory before that last component or its parent, and exists when that
  directory does; any other path exists when the disk has an entry for it.
\<close>

definition os_path_exists :: "disk \<Rightarrow> pystr \<Rightarrow> bool" where
  "os_path_exists d p =
     (if os_path_basename p \<in> {[], str ''.'', str ''..''}
      then (if os_path_dirname p = [] then p \<noteq> [] else d (os_path_dirname p) = Some Directory)
      else d p \<noteq> None)"

text \<open>
  The network and the failures of the system calls are not in the source:
  \<open>requests_get\<close> gives the content of a URL or raises, \<open>makedirs_fails\<close> says whether
  \<open>os.makedirs\<close> raises, \<open>open_fails\<close> and \<open>write_fails\<close> for which paths \<open>open\<close> and \<open>write\<close>
  raise. \<open>open\<close> for writing raises too when the directory of the path is not there;
  a file that was opened exists, empty, when the write raises.
\<close>

record icon_env =
  requests_get :: "pystr \<Rightarrow> exn + nat list"
  makedirs_fails :: bool
  open_fails :: "pystr \<Rightarrow> bool"
  write_fails :: "pystr \<Rightarrow> bool"

definition ensure_icon_cache :: "icon_env \<Rightarrow> disk \<Rightarrow> exn + disk" where
  "ensure_icon_cache env d =
     (if \<not> os_path_exists d ICON_CACHE_DIR
      then (if makedirs_fails env then Inl OSError else Inr (d(ICON_CACHE_DIR \<mapsto> Directory)))
      else Inr d)"

definition icon_cache_path :: "pystr \<Rightarrow> pystr" where
  "icon_cache_path url = os_path_join ICON_CACHE_DIR (os_path_basename url)"

definition open_raises :: "icon_env \<Rightarrow> disk \<Rightarrow> pystr \<Rightarrow> bool" where
  "open_raises env d p =
     (d (os_path_dirname p) \<noteq> Some Directory \<or> d p = Some Directory \<or> open_fails env p)"

text \<open>
  \<open>download_icon\<close>: the disk it leaves, the URLs it requested, and its result, where
  \<open>Inl\<close> is an exception that leaves the function (only \<open>ensure_icon_cache\<close> is outside the
  \<open>try\<close>) and \<open>Inr None\<close> is Python's \<open>None\<close>.
\<close>

definition download_icon ::
  "icon_env \<Rightarrow> disk \<Rightarrow> pystr \<Rightarrow> disk \<times> pystr list \<times> (exn + pystr option)" where
  "download_icon env d url =
     (case ensure_icon_cache env d of
        Inl e \<Rightarrow> (d, [], Inl e)
      | Inr d1 \<Rightarrow>
          (let icon_filename = icon_cache_path url in
           if \<not> os_path_exists d1 icon_filename
           then (case requests_get env url of
                   Inl e \<Rightarrow> (d1, [url], Inr None)
                 | Inr content \<Rightarrow>
                     if open_raises env d1 icon_filename then (d1, [url], Inr None)
                     else if write_fails env icon_filename
                     then (d1(icon_filename \<mapsto> File []), [url], Inr None)
                     else (d1(icon_filename \<mapsto> File content), [url], Inr (Some icon_filename)))
           else (d1, [], Inr (Some icon_filename))))"

text \<open>
  \<open>SuggestedAppModel.data\<close> for the decoration role: the icon of the file, or the empty
  icon when \<open>download_icon\<close> gave \<open>None\<close>.
\<close>

datatype qicon = QIcon_of pystr | QIcon_empty

definition SuggestedAppModel_data_decoration ::
  "icon_env \<Rightarrow> disk \<Rightarrow> pystr \<Rightarrow> disk \<times> pystr list \<times> (exn + qicon)" where
  "SuggestedAppModel_data_decoration env d icon_url =
     (case download_icon env d icon_url of
        (d1, reqs, Inl e) \<Rightarrow> (d1, reqs, Inl e)
      | (d1, reqs, Inr (Some icon_path)) \<Rightarrow>
          (d1, reqs, Inr (if icon_path \<noteq> [] then QIcon_of icon_path else QIcon_empty))
      | (d1, reqs, Inr None) \<Rightarrow> (d1, reqs, Inr QIcon_empty))"

lemma basename_no_slash: "47 \<notin> set (os_path_basename p)"
proof -
  have "47 \<notin> set (takeWhile (\<lambda>c. c \<noteq> 47) (rev p))"
    using set_takeWhileD [of 47 "\<lambda>c. c \<noteq> 47" "rev p"] by blast
  then show ?thesis by (simp add: os_path_basename_def)
qed

lemma icon_cache_path_eq: "icon_cache_path url = str ''./icon_cache/'' @ os_path_basename url"
proof -
  have "\<not> prefix [47] (os_path_basename url)"
    using basename_no_slash [of url] by (cases "os_path_basename url") auto
  then show ?thesis
    by (simp add: icon_cache_path_def os_path_join_def ICON_CACHE_DIR_def str_def suffix_def)
qed

lemma takeWhile_until: "c \<notin> set ys \<Longrightarrow> takeWhile (\<lambda>x. x \<noteq> c) (ys @ c # r) = ys"
  by (induction ys) auto

lemma dropWhile_until: "c \<notin> set ys \<Longrightarrow> dropWhile (\<lambda>x. x \<noteq> c) (ys @ c # r) = c # r"
  by (induction ys) auto

lemma basename_under_dir:
  assumes "47 \<notin> set b"
  shows "os_path_basename (x @ [47] @ b) = b"
proof -
  from assms have "47 \<notin> set (rev b)" by simp
  then have "takeWhile (\<lambda>c. c \<noteq> 47) (rev b @ 47 # rev x) = rev b"
    by (rule takeWhile_until)
  then show ?thesis by (simp add: os_path_basename_def)
qed

lemma dropWhile_not_slash:
  assumes "47 \<notin> set (b :: pystr)"
  shows "dropWhile (\<lambda>c. c \<noteq> 47) (rev b @ 47 # r) = 47 # r"
proof -
  from assms have "47 \<notin> set (rev b)" by simp
  then show ?thesis by (rule dropWhile_until)
qed

lemma icon_cache_path_parts:
  "os_path_basename (icon_cache_path url) = os_path_basename url"
  "os_path_dirname (icon_cache_path url) = ICON_CACHE_DIR"
proof -
  let ?b = "os_path_basename url"
  have n: "47 \<notin> set ?b" by (rule basename_no_slash)
  have e: "icon_cache_path url = str ''./icon_cache'' @ [47] @ ?b"
    by (simp add: icon_cache_path_eq str_def)
  show "os_path_basename (icon_cache_path url) = ?b"
    unfolding e using n by (rule basename_under_dir)
  have "dropWhile (\<lambda>c. c \<noteq> 47) (rev (icon_cache_path url)) = 47 # rev (str ''./icon_cache'')"
    unfolding e using dropWhile_not_slash [OF n, of "rev (str ''./icon_cache'')"] by simp
  then show "os_path_dirname (icon_cache_path url) = ICON_CACHE_DIR"
    by (simp add: os_path_dirname_def ICON_CACHE_DIR_def str_def)
qed

lemma exists_cache_dir: "os_path_exists d ICON_CACHE_DIR = (d ICON_CACHE_DIR \<noteq> None)"
  by (simp add: os_path_exists_def os_path_basename_def ICON_CACHE_DIR_def str_def)

lemma exists_icon_path:
  "os_path_exists d (icon_cache_path url) =
     (if os_path_basename url \<in> {[], str ''.'', str ''..''}
      then d ICON_CACHE_DIR = Some Directory else d (icon_cache_path url) \<noteq> None)"
  by (simp add: os_path_exists_def icon_cache_path_parts ICON_CACHE_DIR_def str_def)

lemma icon_path_not_dir: "icon_cache_path url \<noteq> ICON_CACHE_DIR"
  by (simp add: icon_cache_path_eq ICON_CACHE_DIR_def str_def)

lemma ensure_result:
  assumes "ensure_icon_cache env d = Inr d1"
  shows "d1 ICON_CACHE_DIR \<noteq> None" "ensure_icon_cache env d1 = Inr d1"
  using assms
  by (auto simp: ensure_icon_cache_def exists_cache_dir split: if_splits)

lemma download_icon_cached:
  assumes "ensure_icon_cache env d = Inr d1" "os_path_exists d1 (icon_cache_path url)"
  shows "download_icon env d url = (d1, [], Inr (Some (icon_cache_path url)))"
  using assms by (simp add: download_icon_def Let_def)

lemma download_icon_Some:
  assumes "download_icon env d url = (d', reqs, Inr (Some path))"
  shows "path = icon_cache_path url \<and> ensure_icon_cache env d' = Inr d'
    \<and> os_path_exists d' (icon_cache_path url)"
proof -
  define P where "P = icon_cache_path url"
  from assms obtain d1 where e: "ensure_icon_cache env d = Inr d1"
    by (cases "ensure_icon_cache env d") (auto simp: download_icon_def)
  note r = ensure_result [OF e]
  show ?thesis
  proof (cases "os_path_exists d1 P")
    case True
    with assms e have "d1 = d'" "P = path"
      by (simp_all add: download_icon_def Let_def P_def)
    with r True show ?thesis unfolding P_def by blast
  next
    case False
    then have nx: "\<not> os_path_exists d1 (icon_cache_path url)" unfolding P_def .
    obtain content where rq: "requests_get env url = Inr content"
    proof (cases "requests_get env url")
      case (Inl x)
      with assms e nx have False by (simp add: download_icon_def Let_def)
      then show ?thesis ..
    next
      case (Inr content)
      then show ?thesis by (rule that)
    qed
    have o: "\<not> open_raises env d1 P"
    proof
      assume "open_raises env d1 P"
      with assms e nx rq show False by (simp add: download_icon_def Let_def P_def)
    qed
    have w: "\<not> write_fails env P"
    proof
      assume "write_fails env P"
      with assms e nx rq o show False by (simp add: download_icon_def Let_def P_def)
    qed
    from assms e nx rq o w have c: "d1(P \<mapsto> File content) = d'" "P = path"
      by (auto simp: download_icon_def Let_def P_def)
    from o have dir: "d1 ICON_CACHE_DIR = Some Directory"
      by (simp add: open_raises_def icon_cache_path_parts P_def)
    have "P \<noteq> ICON_CACHE_DIR" unfolding P_def by (rule icon_path_not_dir)
    with dir have "(d1(P \<mapsto> File content)) ICON_CACHE_DIR = Some Directory" by simp
    then have d'dir: "d' ICON_CACHE_DIR = Some Directory" unfolding c(1) .
    then have "ensure_icon_cache env d' = Inr d'"
      by (simp add: ensure_icon_cache_def exists_cache_dir)
    moreover have "(d1(P \<mapsto> File content)) P \<noteq> None" by simp
    then have "d' P \<noteq> None" unfolding c(1) .
    with d'dir have "os_path_exists d' (icon_cache_path url)"
      unfolding exists_icon_path P_def by simp
    ultimately show ?thesis using c(2) unfolding P_def by blast
  qed
qed

text \<open>
  Claim C10. The cache path of a URL is the cache directory, a slash and the basename of
  the URL, so it depends on the basename alone. When that path exists once the cache
  directory is ensured, \<open>download_icon\<close> returns the path and requests nothing. So two
  URLs with the same basename share one cached file: after the call for one has returned
  a path, the call for the other returns the same path without a download and leaves the
  disk as it is. When the path does not exist and the download raises, in \<open>requests.get\<close>,
  in \<open>open\<close> or in \<open>write\<close>, the result is \<open>None\<close> and the entry gets the empty icon.
\<close>

theorem download_icon_cache:
  "icon_cache_path url = str ''./icon_cache/'' @ os_path_basename url
   \<and> (ensure_icon_cache env d = Inr dc \<and> os_path_exists dc (icon_cache_path url) \<longrightarrow>
        download_icon env d url = (dc, [], Inr (Some (icon_cache_path url))))
   \<and> (os_path_basename url = os_path_basename url' \<and>
        download_icon env d url = (d', reqs, Inr (Some path)) \<longrightarrow>
        download_icon env d' url' = (d', [], Inr (Some path)))
   \<and> (ensure_icon_cache env d = Inr dc \<and> \<not> os_path_exists dc (icon_cache_path url) \<and>
        (requests_get env url = Inl e \<or> open_raises env dc (icon_cache_path url)
         \<or> write_fails env (icon_cache_path url)) \<longrightarrow>
        snd (download_icon env d url) = ([url], Inr None)
        \<and> snd (SuggestedAppModel_data_decoration env d url) = ([url], Inr QIcon_empty))"
proof (intro conjI impI)
  show "icon_cache_path url = str ''./icon_cache/'' @ os_path_basename url"
    by (rule icon_cache_path_eq)
next
  assume "ensure_icon_cache env d = Inr dc \<and> os_path_exists dc (icon_cache_path url)"
  then show "download_icon env d url = (dc, [], Inr (Some (icon_cache_path url)))"
    by (simp add: download_icon_cached)
next
  assume a: "os_path_basename url = os_path_basename url' \<and>
        download_icon env d url = (d', reqs, Inr (Some path))"
  then have p: "icon_cache_path url' = icon_cache_path url"
    by (simp add: icon_cache_path_def)
  from a have "path = icon_cache_path url \<and> ensure_icon_cache env d' = Inr d'
      \<and> os_path_exists d' (icon_cache_path url)"
    using download_icon_Some by blast
  then show "download_icon env d' url' = (d', [], Inr (Some path))"
    using download_icon_cached [of env d' d' url'] by (simp add: p)
next
  assume a: "ensure_icon_cache env d = Inr dc \<and> \<not> os_path_exists dc (icon_cache_path url) \<and>
        (requests_get env url = Inl e \<or> open_raises env dc (icon_cache_path url)
         \<or> write_fails env (icon_cache_path url))"
  then show r: "snd (download_icon env d url) = ([url], Inr None)"
    by (auto simp: download_icon_def Let_def split: sum.splits)
  then show "snd (SuggestedAppModel_data_decoration env d url) = ([url], Inr QIcon_empty)"
    by (cases "download_icon env d url") (simp add: SuggestedAppModel_data_decoration_def)
qed

text \<open>
  The claim at two URLs that end in \<open>icon.png\<close>, on an empty disk with a download that
  works; at a URL that ends in a slash, whose path is the cache directory itself; at a
  download that raises; and at a cache path below a plain file, where \<open>open\<close> raises.
\<close>

theorem download_icon_cache_witness:
  "os_path_basename (str ''http://h/a/icon.png'') = os_path_basename (str ''http://other/b/icon.png'')
   \<and> download_icon
        \<lparr>requests_get = \<lambda>u. Inr [1, 2, 3], makedirs_fails = False, open_fails = \<lambda>p. False,
         write_fails = \<lambda>p. False\<rparr>
        Map.empty (str ''http://h/a/icon.png'')
      = ([str ''./icon_cache'' \<mapsto> Directory, str ''./icon_cache/icon.png'' \<mapsto> File [1, 2, 3]],
         [str ''http://h/a/icon.png''], Inr (Some (str ''./icon_cache/icon.png'')))
   \<and> download_icon
        \<lparr>requests_get = \<lambda>u. Inr [1, 2, 3], makedirs_fails = False, open_fails = \<lambda>p. False,
         write_fails = \<lambda>p. False\<rparr>
        [str ''./icon_cache'' \<mapsto> Directory, str ''./icon_cache/icon.png'' \<mapsto> File [1, 2, 3]]
        (str ''http://other/b/icon.png'')
      = ([str ''./icon_cache'' \<mapsto> Directory, str ''./icon_cache/icon.png'' \<mapsto> File [1, 2, 3]],
         [], Inr (Some (str ''./icon_cache/icon.png'')))
   \<and> os_path_exists [str ''./icon_cache'' \<mapsto> Directory] (icon_cache_path (str ''http://h/icons/''))
   \<and> download_icon
        \<lparr>requests_get = \<lambda>u. Inr [1, 2, 3], makedirs_fails = False, open_fails = \<lambda>p. False,
         write_fails = \<lambda>p. False\<rparr>
        Map.empty (str ''http://h/icons/'')
      = ([str ''./icon_cache'' \<mapsto> Directory], [], Inr (Some (str ''./icon_cache/'')))
   \<and> \<not> os_path_exists [str ''./icon_cache'' \<mapsto> Directory] (icon_cache_path (str ''http://h/a/icon.png''))
   \<and> snd (SuggestedAppModel_data_decoration
        \<lparr>requests_get = \<lambda>u. Inl OSError, makedirs_fails = False, open_fails = \<lambda>p. False,
         write_fails = \<lambda>p. False\<rparr>
        Map.empty (str ''http://h/a/icon.png''))
      = ([str ''http://h/a/icon.png''], Inr QIcon_empty)
   \<and> open_raises
        \<lparr>requests_get = \<lambda>u. Inr [1, 2, 3], makedirs_fails = False, open_fails = \<lambda>p. False,
         write_fails = \<lambda>p. False\<rparr>
        [str ''./icon_cache'' \<mapsto> File []] (icon_cache_path (str ''http://h/a/icon.png''))
   \<and> snd (download_icon
        \<lparr>requests_get = \<lambda>u. Inr [1, 2, 3], makedirs_fails = False, open_fails = \<lambda>p. False,
         write_fails = \<lambda>p. False\<rparr>
        [str ''./icon_cache'' \<mapsto> File []] (str ''http://h/a/icon.png''))
      = ([str ''http://h/a/icon.png''], Inr None)"
proof -
  let ?env = "\<lparr>requests_get = \<lambda>u. Inr [1, 2, 3], makedirs_fails = False, open_fails = \<lambda>p. False,
         write_fails = \<lambda>p. False\<rparr>"
  let ?bad = "\<lparr>requests_get = \<lambda>u. Inl OSError, makedirs_fails = False, open_fails = \<lambda>p. False,
         write_fails = \<lambda>p. False\<rparr>"
  let ?u = "str ''http://h/a/icon.png''" and ?v = "str ''http://other/b/icon.png''"
  let ?s = "str ''http://h/icons/''"
  let ?dir = "[str ''./icon_cache'' \<mapsto> Directory]"
  let ?d1 = "[str ''./icon_cache'' \<mapsto> Directory, str ''./icon_cache/icon.png'' \<mapsto> File [1, 2, 3]]"
  let ?f = "[str ''./icon_cache'' \<mapsto> File []]"
  have b: "os_path_basename ?u = str ''icon.png''" "os_path_basename ?v = str ''icon.png''"
    "os_path_basename ?s = []"
    by (simp_all add: os_path_basename_def str_def)
  have p: "icon_cache_path ?u = str ''./icon_cache/icon.png''"
    "icon_cache_path ?s = str ''./icon_cache/''"
    unfolding icon_cache_path_eq b by (simp_all add: str_def)
  have en: "ensure_icon_cache ?env Map.empty = Inr ?dir" "ensure_icon_cache ?bad Map.empty = Inr ?dir"
    "ensure_icon_cache ?env ?f = Inr ?f"
    unfolding ensure_icon_cache_def exists_cache_dir by (simp_all add: ICON_CACHE_DIR_def)
  have x1: "os_path_exists ?dir (icon_cache_path ?s)"
    and x2: "\<not> os_path_exists ?dir (icon_cache_path ?u)"
    and x3: "\<not> os_path_exists ?f (icon_cache_path ?u)"
    unfolding p
    by (simp_all add: os_path_exists_def os_path_basename_def os_path_dirname_def str_def)
  have o: "open_raises ?env ?f (icon_cache_path ?u)"
    by (simp add: open_raises_def icon_cache_path_parts ICON_CACHE_DIR_def)
  have c1: "download_icon ?env Map.empty ?u = (?d1, [?u], Inr (Some (str ''./icon_cache/icon.png'')))"
    unfolding download_icon_def Let_def p en(1) sum.case using x2 [unfolded p]
    by (simp add: open_raises_def os_path_dirname_def str_def)
  have c2: "download_icon ?env ?d1 ?v = (?d1, [], Inr (Some (str ''./icon_cache/icon.png'')))"
    using download_icon_cache [where url = ?u and url' = ?v and env = ?env and d = Map.empty
        and d' = ?d1 and reqs = "[?u]" and path = "str ''./icon_cache/icon.png''"] b c1
    by simp
  have c3: "download_icon ?env Map.empty ?s = (?dir, [], Inr (Some (str ''./icon_cache/'')))"
    using download_icon_cache [where url = ?s and env = ?env and d = Map.empty and dc = ?dir]
      en(1) x1 p(2)
    by simp
  have c4: "snd (SuggestedAppModel_data_decoration ?bad Map.empty ?u) = ([?u], Inr QIcon_empty)"
    using download_icon_cache [where url = ?u and env = ?bad and d = Map.empty and dc = ?dir
        and e = OSError] en(2) x2
    by simp
  have c5: "snd (download_icon ?env ?f ?u) = ([?u], Inr None)"
    using download_icon_cache [where url = ?u and env = ?env and d = ?f and dc = ?f] en(3) x3 o
    by simp
  from b c1 c2 x1 c3 x2 c4 o c5 show ?thesis by simp
qed

end
